theory Spec2Isabelle
  imports Complex_Main
begin

section \<open>JavaScript values read by reconcileTransactions\<close>

text \<open>
  The model follows \<^verbatim>\<open>reconcileTransactions\<close> of \<^verbatim>\<open>src/script.js\<close> (class
  \<^verbatim>\<open>ReconciliationTool\<close>). A row is an object whose properties hold strings, as
  \<^verbatim>\<open>parseCSV\<close> builds them; a property that is not there reads as \<^verbatim>\<open>undefined\<close>,
  here \<open>None\<close>. A string is a list of code units; a \<open>char\<close> stands for a code unit
  below 256, and white space and lower-casing are those of JavaScript on that range.
\<close>

type_synonym row = "string \<rightharpoonup> string"

datatype error = TypeError

subsection \<open>Strings: trim and toLowerCase\<close>

text \<open>
  The white space of \<^verbatim>\<open>String.prototype.trim\<close> and of \<^verbatim>\<open>parseFloat\<close> below code
  unit 256: TAB, LF, VT, FF, CR, SP and NBSP.
\<close>

definition is_white_space :: "char \<Rightarrow> bool" where
  "is_white_space c =
     (c \<in> set [CHR 0x09, CHR 0x0A, CHR 0x0B, CHR 0x0C, CHR 0x0D, CHR 0x20, CHR 0xA0])"

definition trim :: "string \<Rightarrow> string" where
  "trim s = rev (dropWhile is_white_space (rev (dropWhile is_white_space s)))"

definition lower_char :: "char \<Rightarrow> char" where
  "lower_char c =
     (let n = (of_char c :: nat)
      in if (65 \<le> n \<and> n \<le> 90) \<or> (192 \<le> n \<and> n \<le> 214) \<or> (216 \<le> n \<and> n \<le> 222)
         then char_of (n + 32) else c)"

definition toLowerCase :: "string \<Rightarrow> string" where
  "toLowerCase s = map lower_char s"

subsection \<open>The operator || on property values\<close>

text \<open>
  \<^verbatim>\<open>a || b\<close> is \<^verbatim>\<open>a\<close> when \<^verbatim>\<open>a\<close> is truthy and \<^verbatim>\<open>b\<close> otherwise; \<^verbatim>\<open>undefined\<close> and
  the empty string are the falsy values a row property can hold.
\<close>

definition truthy :: "string option \<Rightarrow> bool" where
  "truthy v = (case v of None \<Rightarrow> False | Some s \<Rightarrow> s \<noteq> [])"

definition js_or :: "string option \<Rightarrow> string option \<Rightarrow> string option" where
  "js_or a b = (if truthy a then a else b)"

text \<open>\<^verbatim>\<open>a || ''\<close> and \<^verbatim>\<open>a || 0\<close> with a string or a number on the right.\<close>

definition js_or_str :: "string option \<Rightarrow> string \<Rightarrow> string" where
  "js_or_str a d = (case a of None \<Rightarrow> d | Some s \<Rightarrow> if s = [] then d else s)"

subsection \<open>Numbers: IEEE 754 binary64\<close>

text \<open>
  \<open>Fin m e\<close> is the double \<open>m * 2 ^ e\<close> with \<open>\<bar>m\<bar> < 2 ^ 53\<close> and
  \<open>- 1074 \<le> e \<le> 971\<close>, in the format's own normal form: \<open>2 ^ 52 \<le> \<bar>m\<bar>\<close> unless
  \<open>e = - 1074\<close> (subnormal), and zero is \<open>Fin 0 0\<close>. The two zeros are one value:
  the code only subtracts, takes absolute values and compares, which cannot tell them
  apart.
\<close>

datatype jsnum = NaN | PInf | NInf | Fin int int

function bitlen :: "int \<Rightarrow> int" where
  "bitlen n = (if n \<le> 0 then 0 else 1 + bitlen (n div 2))"
  by pat_completeness auto
termination
  by (relation "measure nat") auto

declare bitlen.simps [simp del]

text \<open>\<open>num / den\<close> rounded to the nearest integer, a tie to the even one.\<close>

definition round_half_even :: "int \<Rightarrow> int \<Rightarrow> int" where
  "round_half_even num den =
     (let q = num div den; r = num mod den
      in if 2 * r < den then q
         else if den < 2 * r then q + 1
         else if even q then q else q + 1)"

text \<open>
  The rational \<open>p / d\<close> (\<open>0 < d\<close>) rounded to the nearest double, ties to even: \<open>e\<close>
  is \<open>\<lfloor>log\<^sub>2 (\<bar>p\<bar> / d)\<rfloor>\<close>, \<open>u\<close> the exponent of the unit in the last place.
\<close>

definition round_double :: "int \<Rightarrow> int \<Rightarrow> jsnum" where
  "round_double p d =
     (if p = 0 then Fin 0 0
      else let a = \<bar>p\<bar>;
               e0 = bitlen a - bitlen d;
               e = (if (if 0 \<le> e0 then d * 2 ^ nat e0 \<le> a else d \<le> a * 2 ^ nat (- e0))
                    then e0 else e0 - 1);
               u = max (e - 52) (- 1074);
               n = (if 0 \<le> u then round_half_even a (d * 2 ^ nat u)
                    else round_half_even (a * 2 ^ nat (- u)) d);
               n' = (if n = 2 ^ 53 then 2 ^ 52 else n);
               u' = (if n = 2 ^ 53 then u + 1 else u)
           in if n' = 0 then Fin 0 0
              else if 971 < u' then (if p < 0 then NInf else PInf)
              else Fin (if p < 0 then - n' else n') u')"

definition js_neg :: "jsnum \<Rightarrow> jsnum" where
  "js_neg x = (case x of NaN \<Rightarrow> NaN | PInf \<Rightarrow> NInf | NInf \<Rightarrow> PInf | Fin m e \<Rightarrow> Fin (- m) e)"

text \<open>\<^verbatim>\<open>x - y\<close>: the exact difference, rounded.\<close>

definition js_sub :: "jsnum \<Rightarrow> jsnum \<Rightarrow> jsnum" where
  "js_sub x y =
     (case (x, y) of
        (Fin m1 e1, Fin m2 e2) \<Rightarrow>
          (let e = min e1 e2;
               p = m1 * 2 ^ nat (e1 - e) - m2 * 2 ^ nat (e2 - e)
           in if 0 \<le> e then round_double (p * 2 ^ nat e) 1 else round_double p (2 ^ nat (- e)))
      | (Fin _ _, PInf) \<Rightarrow> NInf
      | (Fin _ _, NInf) \<Rightarrow> PInf
      | (PInf, Fin _ _) \<Rightarrow> PInf
      | (PInf, NInf) \<Rightarrow> PInf
      | (NInf, Fin _ _) \<Rightarrow> NInf
      | (NInf, PInf) \<Rightarrow> NInf
      | _ \<Rightarrow> NaN)"

text \<open>\<^verbatim>\<open>Math.abs\<close>.\<close>

definition js_abs :: "jsnum \<Rightarrow> jsnum" where
  "js_abs x = (case x of NaN \<Rightarrow> NaN | PInf \<Rightarrow> PInf | NInf \<Rightarrow> PInf | Fin m e \<Rightarrow> Fin \<bar>m\<bar> e)"

text \<open>\<^verbatim>\<open>x < y\<close>: false as soon as one side is NaN.\<close>

definition js_less :: "jsnum \<Rightarrow> jsnum \<Rightarrow> bool" where
  "js_less x y =
     (case (x, y) of
        (Fin m1 e1, Fin m2 e2) \<Rightarrow>
          (let e = min e1 e2 in m1 * 2 ^ nat (e1 - e) < m2 * 2 ^ nat (e2 - e))
      | (Fin _ _, PInf) \<Rightarrow> True
      | (NInf, Fin _ _) \<Rightarrow> True
      | (NInf, PInf) \<Rightarrow> True
      | _ \<Rightarrow> False)"

subsection \<open>parseFloat\<close>

text \<open>
  \<^verbatim>\<open>parseFloat\<close> skips leading white space and reads the longest prefix that is a
  \<^verbatim>\<open>StrDecimalLiteral\<close>: an optional sign, then \<^verbatim>\<open>Infinity\<close> or digits with an optional
  fraction and an optional exponent; what follows the prefix is ignored, and with no such
  prefix the result is NaN. The value is the literal's, rounded to the nearest double
  (the language allows an engine to round a literal of more than 20 significant digits
  less exactly; the model rounds every literal correctly).
\<close>

definition is_digit :: "char \<Rightarrow> bool" where
  "is_digit c = (48 \<le> (of_char c :: nat) \<and> (of_char c :: nat) \<le> 57)"

definition digits_value :: "string \<Rightarrow> int" where
  "digits_value ds = foldl (\<lambda>acc c. 10 * acc + (of_char c - 48)) 0 ds"

text \<open>
  The value of the \<^verbatim>\<open>ExponentPart\<close> the rest starts with: \<^verbatim>\<open>e\<close> or \<^verbatim>\<open>E\<close>, an optional
  sign, at least one digit; 0 when the rest does not start with one.
\<close>

definition exponent_part :: "string \<Rightarrow> int" where
  "exponent_part s =
     (case s of
        [] \<Rightarrow> 0
      | c # r \<Rightarrow>
          if c = CHR ''e'' \<or> c = CHR ''E'' then
            (case r of
               [] \<Rightarrow> 0
             | g # r' \<Rightarrow>
                 if g = CHR ''+'' then digits_value (takeWhile is_digit r')
                 else if g = CHR ''-'' then - digits_value (takeWhile is_digit r')
                 else digits_value (takeWhile is_digit r))
          else 0)"

definition str_unsigned_decimal :: "string \<Rightarrow> jsnum" where
  "str_unsigned_decimal s =
     (if take 8 s = ''Infinity'' then PInf
      else let ip = takeWhile is_digit s;
               r1 = dropWhile is_digit s;
               dot = (case r1 of [] \<Rightarrow> False | c # _ \<Rightarrow> c = CHR ''.'');
               fp = (if dot then takeWhile is_digit (tl r1) else []);
               r2 = (if dot then dropWhile is_digit (tl r1) else r1);
               k = exponent_part r2 - int (length fp);
               n = digits_value (ip @ fp)
           in if ip = [] \<and> fp = [] then NaN
              else if 0 \<le> k then round_double (n * 10 ^ nat k) 1
              else round_double n (10 ^ nat (- k)))"

definition parseFloat :: "string \<Rightarrow> jsnum" where
  "parseFloat s =
     (case dropWhile is_white_space s of
        [] \<Rightarrow> NaN
      | c # r \<Rightarrow>
          if c = CHR ''+'' then str_unsigned_decimal r
          else if c = CHR ''-'' then js_neg (str_unsigned_decimal r)
          else str_unsigned_decimal (c # r))"

section \<open>Map: insertion-ordered, updated in place\<close>

text \<open>
  A JavaScript \<^verbatim>\<open>Map\<close> iterates in insertion order; \<^verbatim>\<open>set\<close> on a key that is there
  replaces the value where the entry stands, and appends the entry otherwise. \<^verbatim>\<open>get\<close>
  on a key that is not there is \<^verbatim>\<open>undefined\<close>.
\<close>

type_synonym 'v jsmap = "(string \<times> 'v) list"

fun jsmap_set :: "'v jsmap \<Rightarrow> string \<Rightarrow> 'v \<Rightarrow> 'v jsmap" where
  "jsmap_set [] k v = [(k, v)]"
| "jsmap_set ((k', v') # m) k v =
     (if k' = k then (k, v) # m else (k', v') # jsmap_set m k v)"

fun jsmap_has :: "'v jsmap \<Rightarrow> string \<Rightarrow> bool" where
  "jsmap_has [] k = False"
| "jsmap_has ((k', v') # m) k = (if k' = k then True else jsmap_has m k)"

fun jsmap_get :: "'v jsmap \<Rightarrow> string \<Rightarrow> 'v option" where
  "jsmap_get [] k = None"
| "jsmap_get ((k', v') # m) k = (if k' = k then Some v' else jsmap_get m k)"

section \<open>reconcileTransactions\<close>

record matchData =
  transaction_reference :: string
  internal :: row
  provider :: row
  amount_match :: bool
  status_match :: bool
  fully_matched :: bool

record summary_counts =
  total_internal :: nat
  total_provider :: nat
  matched_count :: nat
  mismatched_count :: nat
  internal_only_count :: nat
  provider_only_count :: nat

text \<open>
  \<open>summary\<close> starts as the empty object \<^verbatim>\<open>{}\<close>, which holds no count: \<open>None\<close>. It is
  assigned once, before the return.
\<close>

record results =
  matched :: "matchData list"
  mismatched :: "matchData list"
  internal_only :: "row list"
  provider_only :: "row list"
  summary :: "summary_counts option"

text \<open>The object the method is called on; the constructor sets \<^verbatim>\<open>currentResults\<close> to null.\<close>

record tool =
  currentResults :: "results option"

text \<open>
  \<^verbatim>\<open>(row.transaction_reference || row.reference || row.id || '').toString().trim()\<close>:
  the operand is a string in every case, and \<^verbatim>\<open>toString\<close> returns it.
\<close>

definition ref_of :: "row \<Rightarrow> string" where
  "ref_of row =
     trim (js_or_str (js_or (js_or (row ''transaction_reference'') (row ''reference''))
                            (row ''id'')) [])"

text \<open>
  The two \<^verbatim>\<open>forEach\<close> loops that fill \<^verbatim>\<open>internalMap\<close> and \<^verbatim>\<open>providerMap\<close>: a row
  whose \<^verbatim>\<open>ref\<close> is the empty string (falsy) is not stored.
\<close>

fun index_rows :: "row list \<Rightarrow> row jsmap \<Rightarrow> row jsmap" where
  "index_rows [] m = m"
| "index_rows (row # rows) m =
     (let ref = ref_of row
      in index_rows rows (if ref = [] then m else jsmap_set m ref row))"

text \<open>
  \<^verbatim>\<open>parseFloat(txn.amount || 0)\<close>: \<^verbatim>\<open>parseFloat\<close> first turns its argument into a string,
  the number 0 into \<^verbatim>\<open>"0"\<close>.
\<close>

definition amount_of :: "row \<Rightarrow> jsnum" where
  "amount_of txn = parseFloat (js_or_str (txn ''amount'') ''0'')"

text \<open>\<^verbatim>\<open>(txn.status || '').toLowerCase().trim()\<close>\<close>

definition status_of :: "row \<Rightarrow> string" where
  "status_of txn = trim (toLowerCase (js_or_str (txn ''status'') []))"

text \<open>The literal \<^verbatim>\<open>0.01\<close>.\<close>

definition lit_0_01 :: jsnum where
  "lit_0_01 = round_double 1 100"

definition make_matchData :: "string \<Rightarrow> row \<Rightarrow> row \<Rightarrow> matchData" where
  "make_matchData ref internalTxn providerTxn =
     (let amountMatch = js_less (js_abs (js_sub (amount_of internalTxn) (amount_of providerTxn)))
                                lit_0_01;
          statusMatch = (status_of internalTxn = status_of providerTxn)
      in \<lparr>transaction_reference = ref, internal = internalTxn, provider = providerTxn,
          amount_match = amountMatch, status_match = statusMatch,
          fully_matched = (amountMatch \<and> statusMatch)\<rparr>)"

text \<open>
  The loop over \<^verbatim>\<open>internalMap\<close>. \<^verbatim>\<open>providerMap.get(ref)\<close> may be \<^verbatim>\<open>undefined\<close>, and
  reading \<^verbatim>\<open>amount\<close> from \<^verbatim>\<open>undefined\<close> throws a TypeError.
\<close>

fun match_internal :: "row jsmap \<Rightarrow> row jsmap \<Rightarrow> results \<Rightarrow> error + results" where
  "match_internal [] providerMap res = Inr res"
| "match_internal ((ref, internalTxn) # rest) providerMap res =
     (if jsmap_has providerMap ref then
        (case jsmap_get providerMap ref of
           None \<Rightarrow> Inl TypeError
         | Some providerTxn \<Rightarrow>
             (let matchData = make_matchData ref internalTxn providerTxn
              in if fully_matched matchData
                 then match_internal rest providerMap
                        (res\<lparr>matched := matched res @ [matchData]\<rparr>)
                 else match_internal rest providerMap
                        (res\<lparr>mismatched := mismatched res @ [matchData]\<rparr>)))
      else match_internal rest providerMap
             (res\<lparr>internal_only := internal_only res @ [internalTxn]\<rparr>))"

text \<open>The loop over \<^verbatim>\<open>providerMap\<close>.\<close>

fun find_provider_only :: "row jsmap \<Rightarrow> row jsmap \<Rightarrow> results \<Rightarrow> results" where
  "find_provider_only [] internalMap res = res"
| "find_provider_only ((ref, providerTxn) # rest) internalMap res =
     (if jsmap_has internalMap ref then find_provider_only rest internalMap res
      else find_provider_only rest internalMap
             (res\<lparr>provider_only := provider_only res @ [providerTxn]\<rparr>))"

definition reconcileTransactions ::
  "tool \<Rightarrow> row list \<Rightarrow> row list \<Rightarrow> (error + results) \<times> tool" where
  "reconcileTransactions this internalData providerData =
     (let results0 = \<lparr>matched = [], mismatched = [], internal_only = [], provider_only = [],
                      summary = None\<rparr>;
          internalMap = index_rows internalData [];
          providerMap = index_rows providerData []
      in case match_internal internalMap providerMap results0 of
           Inl err \<Rightarrow> (Inl err, this)
         | Inr results1 \<Rightarrow>
             (let results2 = find_provider_only providerMap internalMap results1
              in (Inr (results2\<lparr>summary := Some
                    \<lparr>total_internal = length internalData,
                     total_provider = length providerData,
                     matched_count = length (matched results2),
                     mismatched_count = length (mismatched results2),
                     internal_only_count = length (internal_only results2),
                     provider_only_count = length (provider_only results2)\<rparr>\<rparr>), this)))"

section \<open>Notions used in the statements\<close>

text \<open>
  The non-empty keys of a list of rows in input order; a list without the later
  occurrences of its elements; the records the loop over the internal map builds and
  the rows it leaves alone; the keys of the four categories of a result; a field that
  is absent or holds white space only.
\<close>

definition keys_of :: "row list \<Rightarrow> string list" where
  "keys_of rows = filter (\<lambda>k. k \<noteq> []) (map ref_of rows)"

definition first_occurrences :: "'a list \<Rightarrow> 'a list" where
  "first_occurrences xs = rev (remdups (rev xs))"

definition paired :: "row jsmap \<Rightarrow> row jsmap \<Rightarrow> matchData list" where
  "paired internalMap providerMap =
     concat (map (\<lambda>(ref, internalTxn).
                    case jsmap_get providerMap ref of
                      None \<Rightarrow> []
                    | Some providerTxn \<Rightarrow> [make_matchData ref internalTxn providerTxn])
                 internalMap)"

definition unpaired :: "row jsmap \<Rightarrow> row jsmap \<Rightarrow> row list" where
  "unpaired m other = map snd (filter (\<lambda>(ref, txn). \<not> jsmap_has other ref) m)"

definition category_keys :: "results \<Rightarrow> string list" where
  "category_keys res =
     map transaction_reference (matched res) @ map transaction_reference (mismatched res) @
     map ref_of (internal_only res) @ map ref_of (provider_only res)"

definition blank :: "string option \<Rightarrow> bool" where
  "blank v = (case v of None \<Rightarrow> True | Some s \<Rightarrow> trim s = [])"

text \<open>
  The exact value of a finite double, and the largest exact difference that still rounds
  below the literal 0.01; a string without white space at either end; lower-casing on
  the codes of the characters.
\<close>

definition finite_value :: "jsnum \<Rightarrow> rat option" where
  "finite_value x = (case x of Fin m e \<Rightarrow> Some (of_int m * 2 powi e) | _ \<Rightarrow> None)"

definition amount_threshold :: rat where
  "amount_threshold = 11529215046068469 / 2 ^ 60"

definition stripped :: "string \<Rightarrow> bool" where
  "stripped t = (case t of [] \<Rightarrow> True | c # cs \<Rightarrow> \<not> is_white_space c \<and> \<not> is_white_space (last (c # cs)))"

definition lower_code :: "nat \<Rightarrow> nat" where
  "lower_code n =
     (if (65 \<le> n \<and> n \<le> 90) \<or> (192 \<le> n \<and> n \<le> 214) \<or> (216 \<le> n \<and> n \<le> 222)
      then n + 32 else n)"

section \<open>Example inputs\<close>

text \<open>
  A freshly constructed tool, the rows of scenarios A to D of the specification, and
  rows for the border cases: an amount that is no number, a missing and an empty amount,
  key fields that hold white space.
\<close>

definition new_tool :: tool where
  "new_tool = \<lparr>currentResults = None\<rparr>"

definition scenario_A_internal :: row where
  "scenario_A_internal = [''id'' \<mapsto> ''T1'', ''amount'' \<mapsto> ''10.00'', ''status'' \<mapsto> ''Completed'']"

definition scenario_A_provider :: row where
  "scenario_A_provider = [''id'' \<mapsto> ''T1'', ''amount'' \<mapsto> ''10.00'', ''status'' \<mapsto> ''completed'']"

definition scenario_C_internal :: row where
  "scenario_C_internal = [''id'' \<mapsto> ''T3'', ''amount'' \<mapsto> ''5'', ''status'' \<mapsto> ''ok'']"

definition provider_extra :: row where
  "provider_extra = [''transaction_reference'' \<mapsto> ''P9'', ''id'' \<mapsto> ''T3'']"

definition unparsable_row :: row where
  "unparsable_row = [''id'' \<mapsto> ''T1'', ''amount'' \<mapsto> ''abc'']"

definition no_amount_row :: row where
  "no_amount_row = [''id'' \<mapsto> ''T7'', ''status'' \<mapsto> ''ok'']"

definition empty_amount_row :: row where
  "empty_amount_row = [''id'' \<mapsto> ''T7'', ''amount'' \<mapsto> [], ''status'' \<mapsto> ''OK '']"

definition whitespace_ref_row :: row where
  "whitespace_ref_row = [''transaction_reference'' \<mapsto> '' '', ''reference'' \<mapsto> ''R1'']"

definition scenario_B_internal :: row where
  "scenario_B_internal = [''id'' \<mapsto> ''T2'', ''amount'' \<mapsto> ''10.00'', ''status'' \<mapsto> ''Completed'']"

definition scenario_B_provider :: row where
  "scenario_B_provider = [''id'' \<mapsto> ''T2'', ''amount'' \<mapsto> ''10.50'', ''status'' \<mapsto> ''Completed'']"

definition scenario_D_first :: row where
  "scenario_D_first = [''id'' \<mapsto> ''T4'', ''amount'' \<mapsto> ''1'']"

definition scenario_D_second :: row where
  "scenario_D_second = [''id'' \<mapsto> ''T4'', ''amount'' \<mapsto> ''2'']"

definition scenario_D_provider :: row where
  "scenario_D_provider = [''id'' \<mapsto> ''T4'', ''amount'' \<mapsto> ''2'']"

definition padded_reference_row :: row where
  "padded_reference_row = [''reference'' \<mapsto> '' T1 '', ''amount'' \<mapsto> ''10.00'']"

definition blank_row :: row where
  "blank_row = [''id'' \<mapsto> ''  '', ''reference'' \<mapsto> [], ''amount'' \<mapsto> ''7'']"

definition near_threshold_internal :: row where
  "near_threshold_internal = [''id'' \<mapsto> ''T8'', ''amount'' \<mapsto> ''0.0125'']"

definition near_threshold_provider :: row where
  "near_threshold_provider = [''id'' \<mapsto> ''T8'', ''amount'' \<mapsto> ''0.002500000000000001'']"

definition padded_internal :: row where
  "padded_internal = [''id'' \<mapsto> ''T6'', ''amount'' \<mapsto> ''-10.00'', ''status'' \<mapsto> '' COMPLETED'']"

definition padded_provider :: row where
  "padded_provider = [''id'' \<mapsto> ''T6'', ''amount'' \<mapsto> ''-10.01'', ''status'' \<mapsto> ''Completed '']"

section \<open>The map operations\<close>

lemma jsmap_has_iff: "jsmap_has m k \<longleftrightarrow> k \<in> fst ` set m"
  by (induction m) auto

lemma jsmap_has_get: "jsmap_has m k \<longleftrightarrow> jsmap_get m k \<noteq> None"
  by (induction m) (auto split: if_splits)

lemma keys_jsmap_set:
  "map fst (jsmap_set m k v) = (if k \<in> fst ` set m then map fst m else map fst m @ [k])"
  by (induction m) (auto split: if_splits)

lemma jsmap_get_set: "jsmap_get (jsmap_set m k v) k' = (if k' = k then Some v else jsmap_get m k')"
  by (induction m) auto

lemma set_jsmap_set: "set (jsmap_set m k v) \<subseteq> insert (k, v) (set m)"
  by (induction m) (auto split: if_splits)

lemma distinct_jsmap_set: "distinct (map fst m) \<Longrightarrow> distinct (map fst (jsmap_set m k v))"
  by (simp add: keys_jsmap_set)

section \<open>The index of a side\<close>

lemma distinct_index_rows:
  "distinct (map fst m) \<Longrightarrow> distinct (map fst (index_rows rows m))"
  by (induction rows arbitrary: m) (simp_all add: Let_def distinct_jsmap_set)

lemma index_rows_entry:
  "(k, r) \<in> set (index_rows rows m) \<Longrightarrow>
     (k, r) \<in> set m \<or> (r \<in> set rows \<and> ref_of r = k \<and> k \<noteq> [])"
proof (induction rows arbitrary: m)
  case Nil
  then show ?case by simp
next
  case (Cons row rows)
  show ?case
  proof (cases "ref_of row = []")
    case True
    with Cons.prems have "(k, r) \<in> set (index_rows rows m)" by simp
    from Cons.IH [OF this] show ?thesis by auto
  next
    case False
    with Cons.prems have "(k, r) \<in> set (index_rows rows (jsmap_set m (ref_of row) row))"
      by simp
    from Cons.IH [OF this] set_jsmap_set [of m "ref_of row" row] False
    show ?thesis by auto
  qed
qed

lemma jsmap_get_index_rows:
  "jsmap_get (index_rows rows m) k =
     (if k \<noteq> [] \<and> filter (\<lambda>r. ref_of r = k) rows \<noteq> []
      then Some (last (filter (\<lambda>r. ref_of r = k) rows)) else jsmap_get m k)"
  by (induction rows arbitrary: m) (auto simp: Let_def jsmap_get_set)

lemma remdups_absorb: "k \<in> set zs \<Longrightarrow> remdups (ys @ k # zs) = remdups (ys @ zs)"
  by (induction ys) auto

lemma first_occurrences_absorb:
  "k \<in> set xs \<Longrightarrow> first_occurrences (xs @ k # ys) = first_occurrences (xs @ ys)"
  by (simp add: first_occurrences_def remdups_absorb)

lemma first_occurrences_distinct: "distinct xs \<Longrightarrow> first_occurrences xs = xs"
  by (simp add: first_occurrences_def distinct_remdups_id)

lemma keys_index_rows:
  "distinct (map fst m) \<Longrightarrow> [] \<notin> fst ` set m \<Longrightarrow>
     map fst (index_rows rows m) = first_occurrences (map fst m @ keys_of rows)"
proof (induction rows arbitrary: m)
  case Nil
  then show ?case by (simp add: keys_of_def first_occurrences_distinct)
next
  case (Cons row rows)
  show ?case
  proof (cases "ref_of row = []")
    case True
    with Cons show ?thesis by (simp add: keys_of_def)
  next
    case False
    let ?m = "jsmap_set m (ref_of row) row"
    have d: "distinct (map fst ?m)" using Cons.prems(1) by (rule distinct_jsmap_set)
    have n: "[] \<notin> fst ` set ?m"
      using Cons.prems(2) False set_jsmap_set [of m "ref_of row" row] by auto
    have "map fst (index_rows (row # rows) m) = first_occurrences (map fst ?m @ keys_of rows)"
      using Cons.IH [OF d n] False by simp
    also have "\<dots> = first_occurrences (map fst m @ keys_of (row # rows))"
      using False by (auto simp: keys_jsmap_set keys_of_def first_occurrences_absorb)
    finally show ?thesis .
  qed
qed

section \<open>The loops as list functions\<close>

lemma match_internal_eq:
  "match_internal im pm res =
     Inr (res\<lparr>matched := matched res @ filter fully_matched (paired im pm),
              mismatched := mismatched res @ filter (\<lambda>x. \<not> fully_matched x) (paired im pm),
              internal_only := internal_only res @ unpaired im pm\<rparr>)"
proof (induction im arbitrary: res)
  case Nil
  then show ?case by (simp add: paired_def unpaired_def)
next
  case (Cons a im)
  obtain k r where a: "a = (k, r)" by (cases a)
  show ?case
  proof (cases "jsmap_get pm k")
    case None
    then have "\<not> jsmap_has pm k" by (simp add: jsmap_has_get)
    with None show ?thesis
      by (simp add: a Cons.IH paired_def unpaired_def)
  next
    case (Some pr)
    then have "jsmap_has pm k" by (simp add: jsmap_has_get)
    with Some show ?thesis
      by (simp add: a Cons.IH paired_def unpaired_def Let_def)
  qed
qed

lemma find_provider_only_eq:
  "find_provider_only pm im res =
     res\<lparr>provider_only := provider_only res @ unpaired pm im\<rparr>"
  by (induction pm arbitrary: res) (auto simp: unpaired_def)

lemma reconcileTransactions_eq:
  "reconcileTransactions this internalData providerData =
     (let im = index_rows internalData []; pm = index_rows providerData []
      in (Inr \<lparr>matched = filter fully_matched (paired im pm),
               mismatched = filter (\<lambda>x. \<not> fully_matched x) (paired im pm),
               internal_only = unpaired im pm,
               provider_only = unpaired pm im,
               summary = Some
                 \<lparr>total_internal = length internalData,
                  total_provider = length providerData,
                  matched_count = length (filter fully_matched (paired im pm)),
                  mismatched_count = length (filter (\<lambda>x. \<not> fully_matched x) (paired im pm)),
                  internal_only_count = length (unpaired im pm),
                  provider_only_count = length (unpaired pm im)\<rparr>\<rparr>, this))"
  by (simp add: reconcileTransactions_def match_internal_eq find_provider_only_eq Let_def)

lemma reconcile_fields:
  assumes "reconcileTransactions this internalData providerData = (Inr res, this')"
  defines "im \<equiv> index_rows internalData []" and "pm \<equiv> index_rows providerData []"
  shows "matched res = filter fully_matched (paired im pm)"
    and "mismatched res = filter (\<lambda>x. \<not> fully_matched x) (paired im pm)"
    and "internal_only res = unpaired im pm"
    and "provider_only res = unpaired pm im"
    and "summary res = Some
           \<lparr>total_internal = length internalData,
            total_provider = length providerData,
            matched_count = length (matched res),
            mismatched_count = length (mismatched res),
            internal_only_count = length (internal_only res),
            provider_only_count = length (provider_only res)\<rparr>"
    and "this' = this"
  using assms by (auto simp: reconcileTransactions_eq Let_def)

section \<open>Match records of the keys on both sides\<close>

lemma make_matchData_sel [simp]:
  "transaction_reference (make_matchData k r pr) = k"
  "internal (make_matchData k r pr) = r"
  "provider (make_matchData k r pr) = pr"
  "fully_matched (make_matchData k r pr) =
     (amount_match (make_matchData k r pr) \<and> status_match (make_matchData k r pr))"
  by (simp_all add: make_matchData_def Let_def)

lemma paired_Nil [simp]: "paired [] pm = []"
  by (simp add: paired_def)

lemma paired_Cons:
  "paired ((k, r) # im) pm =
     (case jsmap_get pm k of None \<Rightarrow> [] | Some pr \<Rightarrow> [make_matchData k r pr]) @ paired im pm"
  by (simp add: paired_def)

lemma set_paired:
  "set (paired im pm) =
     {make_matchData k r pr |k r pr. (k, r) \<in> set im \<and> jsmap_get pm k = Some pr}"
proof (induction im)
  case Nil
  then show ?case by simp
next
  case (Cons a im)
  obtain k' r' where a: "a = (k', r')" by (cases a)
  show ?case
    unfolding a paired_Cons
    by (cases "jsmap_get pm k'") (auto simp: Cons.IH)
qed

lemma paired_entry:
  assumes "m \<in> set (paired im pm)"
  shows "\<exists>r pr. (transaction_reference m, r) \<in> set im \<and>
                jsmap_get pm (transaction_reference m) = Some pr \<and>
                m = make_matchData (transaction_reference m) r pr"
proof -
  from assms obtain k r pr
    where "m = make_matchData k r pr" "(k, r) \<in> set im" "jsmap_get pm k = Some pr"
    unfolding set_paired by blast
  then show ?thesis by auto
qed

lemma paired_keys:
  "map transaction_reference (paired im pm) = filter (jsmap_has pm) (map fst im)"
  by (induction im) (auto simp: paired_Cons jsmap_has_get split: option.splits)

lemma paired_absent:
  "k \<notin> fst ` set im \<Longrightarrow> filter (\<lambda>x. transaction_reference x = k) (paired im pm) = []"
  by (induction im) (auto simp: paired_Cons split: option.splits)


lemma paired_unique:
  "distinct (map fst im) \<Longrightarrow> jsmap_get im k = Some r \<Longrightarrow> jsmap_get pm k = Some pr \<Longrightarrow>
     filter (\<lambda>x. transaction_reference x = k) (paired im pm) = [make_matchData k r pr]"
proof (induction im)
  case Nil
  then show ?case by simp
next
  case (Cons a im)
  obtain k' r' where a: "a = (k', r')" by (cases a)
  show ?case
  proof (cases "k' = k")
    case True
    with Cons.prems a have "r' = r" and "k \<notin> fst ` set im" by auto
    with True a Cons.prems(3) show ?thesis
      by (simp add: paired_Cons paired_absent)
  next
    case False
    with Cons a show ?thesis
      by (auto simp: paired_Cons split: option.splits)
  qed
qed

lemma filter_split_eq:
  "filter P (filter Q xs @ filter (\<lambda>x. \<not> Q x) xs) = [m] \<longleftrightarrow> filter P xs = [m]"
  if "length (filter P xs) \<le> 1"
  using that
proof (induction xs)
  case Nil
  then show ?case by simp
next
  case (Cons x xs)
  show ?case
  proof (cases "P x")
    case True
    with Cons.prems have e: "filter P xs = []" by simp
    then have "filter P (filter Q xs) = []" "filter P (filter (\<lambda>x. \<not> Q x) xs) = []"
      by (auto simp: filter_empty_conv)
    with True e show ?thesis by auto
  next
    case False
    with Cons show ?thesis by simp
  qed
qed

lemma unpaired_entry:
  "r \<in> set (unpaired m other) \<Longrightarrow> \<exists>k. (k, r) \<in> set m \<and> \<not> jsmap_has other k"
  by (auto simp: unpaired_def)

lemma length_paired_unpaired: "length (paired im pm) + length (unpaired im pm) = length im"
  by (induction im) (auto simp: paired_Cons unpaired_def jsmap_has_get split: option.splits)

lemma index_entry:
  "(k, r) \<in> set (index_rows rows []) \<Longrightarrow> r \<in> set rows \<and> ref_of r = k \<and> k \<noteq> []"
  using index_rows_entry [of k r rows "[]"] by simp

lemma distinct_index: "distinct (map fst (index_rows rows []))"
  by (rule distinct_index_rows) simp

lemma jsmap_get_entry: "jsmap_get m k = Some r \<Longrightarrow> (k, r) \<in> set m"
  by (induction m) (auto split: if_splits)

lemma entry_jsmap_get: "distinct (map fst m) \<Longrightarrow> (k, r) \<in> set m \<Longrightarrow> jsmap_get m k = Some r"
  by (induction m) (auto split: if_splits simp: rev_image_eqI)

lemma match_record_for_key:
  assumes "reconcileTransactions this internalData providerData = (Inr res, this')"
    and "jsmap_get (index_rows internalData []) k = Some internalTxn"
    and "jsmap_get (index_rows providerData []) k = Some providerTxn"
  shows "filter (\<lambda>x. transaction_reference x = k) (matched res @ mismatched res) =
           [make_matchData k internalTxn providerTxn]"
proof -
  let ?im = "index_rows internalData []" and ?pm = "index_rows providerData []"
  note f = reconcile_fields [OF assms(1)]
  have one: "filter (\<lambda>x. transaction_reference x = k) (paired ?im ?pm) =
               [make_matchData k internalTxn providerTxn]"
    using distinct_index assms(2,3) by (rule paired_unique)
  then have "length (filter (\<lambda>x. transaction_reference x = k) (paired ?im ?pm)) \<le> 1" by simp
  from filter_split_eq [OF this] one show ?thesis
    by (simp add: f)
qed

section \<open>One match record per shared key\<close>

text \<open>
  Claim C1. For a key that both indexes hold, the result has exactly one match record
  with that key, counting \<open>matched\<close> and \<open>mismatched\<close> together. The record carries
  the two rows the indexes hold for the key, its \<open>fully_matched\<close> is the conjunction
  of \<open>amount_match\<close> and \<open>status_match\<close>, it stands in \<open>matched\<close> when
  \<open>fully_matched\<close> is true and in \<open>mismatched\<close> when it is false, and no row of
  \<open>internal_only\<close> or \<open>provider_only\<close> has this key.
\<close>

theorem C1_one_match_record:
  assumes "reconcileTransactions this internalData providerData = (Inr res, this')"
    and "jsmap_get (index_rows internalData []) k = Some internalTxn"
    and "jsmap_get (index_rows providerData []) k = Some providerTxn"
  shows "\<exists>m. filter (\<lambda>x. transaction_reference x = k) (matched res @ mismatched res) = [m] \<and>
            transaction_reference m = k \<and> internal m = internalTxn \<and> provider m = providerTxn \<and>
            fully_matched m = (amount_match m \<and> status_match m) \<and>
            (if fully_matched m
             then m \<in> set (matched res) \<and> m \<notin> set (mismatched res)
             else m \<in> set (mismatched res) \<and> m \<notin> set (matched res)) \<and>
            (\<forall>r \<in> set (internal_only res) \<union> set (provider_only res). ref_of r \<noteq> k)"
proof -
  let ?im = "index_rows internalData []" and ?pm = "index_rows providerData []"
  let ?m = "make_matchData k internalTxn providerTxn"
  note f = reconcile_fields [OF assms(1)]
  have both: "filter (\<lambda>x. transaction_reference x = k) (matched res @ mismatched res) = [?m]"
    using assms by (rule match_record_for_key)
  then have "?m \<in> set (filter (\<lambda>x. transaction_reference x = k)
                          (matched res @ mismatched res))"
    by simp
  then have mem: "?m \<in> set (paired ?im ?pm)"
    by (auto simp: f)
  have cat: "if fully_matched ?m
             then ?m \<in> set (matched res) \<and> ?m \<notin> set (mismatched res)
             else ?m \<in> set (mismatched res) \<and> ?m \<notin> set (matched res)"
    using mem by (simp add: f)
  have only: "\<forall>r \<in> set (internal_only res) \<union> set (provider_only res). ref_of r \<noteq> k"
  proof
    fix r assume "r \<in> set (internal_only res) \<union> set (provider_only res)"
    then consider "r \<in> set (unpaired ?im ?pm)" | "r \<in> set (unpaired ?pm ?im)"
      by (auto simp: f)
    then show "ref_of r \<noteq> k"
    proof cases
      case 1
      then obtain k' where "(k', r) \<in> set ?im" "\<not> jsmap_has ?pm k'"
        using unpaired_entry by blast
      with index_entry [of k' r internalData] assms(3) show ?thesis
        by (auto simp: jsmap_has_get)
    next
      case 2
      then obtain k' where "(k', r) \<in> set ?pm" "\<not> jsmap_has ?im k'"
        using unpaired_entry by blast
      with index_entry [of k' r providerData] assms(2) show ?thesis
        by (auto simp: jsmap_has_get)
    qed
  qed
  from both cat only show ?thesis
    by (intro exI [of _ ?m]) simp
qed

lemma scenario_A_refs:
  "ref_of scenario_A_internal = ''T1''" "ref_of scenario_A_provider = ''T1''"
  by code_simp+

lemma scenario_A_flags:
  "amount_match (make_matchData ''T1'' scenario_A_internal scenario_A_provider)"
  "status_match (make_matchData ''T1'' scenario_A_internal scenario_A_provider)"
  by code_simp+

lemma provider_extra_ref: "ref_of provider_extra = ''P9''"
  by code_simp

lemma scenario_C_ref: "ref_of scenario_C_internal = ''T3''"
  by code_simp

lemma scenario_A_run:
  "reconcileTransactions new_tool [scenario_A_internal, scenario_C_internal]
       [provider_extra, scenario_A_provider] =
     (Inr \<lparr>matched = [make_matchData ''T1'' scenario_A_internal scenario_A_provider],
           mismatched = [], internal_only = [scenario_C_internal],
           provider_only = [provider_extra],
           summary = Some \<lparr>total_internal = 2, total_provider = 2, matched_count = 1,
                           mismatched_count = 0, internal_only_count = 1,
                           provider_only_count = 1\<rparr>\<rparr>, new_tool)"
  by (simp add: reconcileTransactions_def scenario_A_refs scenario_A_flags scenario_C_ref
        provider_extra_ref)

text \<open>
  Scenario A of the specification (key \<open>T1\<close>, equal amounts, statuses that differ in
  case only), with one more row on each side whose key the other side lacks.
\<close>

theorem C1_one_match_record_witness:
  "reconcileTransactions new_tool [scenario_A_internal, scenario_C_internal]
       [provider_extra, scenario_A_provider] =
     (Inr \<lparr>matched = [make_matchData ''T1'' scenario_A_internal scenario_A_provider],
           mismatched = [], internal_only = [scenario_C_internal],
           provider_only = [provider_extra],
           summary = Some \<lparr>total_internal = 2, total_provider = 2, matched_count = 1,
                           mismatched_count = 0, internal_only_count = 1,
                           provider_only_count = 1\<rparr>\<rparr>, new_tool) \<and>
   jsmap_get (index_rows [scenario_A_internal, scenario_C_internal] []) ''T1'' =
     Some scenario_A_internal \<and>
   jsmap_get (index_rows [provider_extra, scenario_A_provider] []) ''T1'' =
     Some scenario_A_provider \<and>
   (\<exists>m. filter (\<lambda>x. transaction_reference x = ''T1'')
            ([make_matchData ''T1'' scenario_A_internal scenario_A_provider] @ []) = [m] \<and>
        transaction_reference m = ''T1'' \<and> internal m = scenario_A_internal \<and>
        provider m = scenario_A_provider \<and> fully_matched m \<and>
        m \<in> set [make_matchData ''T1'' scenario_A_internal scenario_A_provider]) \<and>
   ref_of scenario_C_internal \<noteq> ''T1'' \<and> ref_of provider_extra \<noteq> ''T1''"
proof -
  have h2: "jsmap_get (index_rows [scenario_A_internal, scenario_C_internal] []) ''T1'' =
              Some scenario_A_internal"
    by (simp add: scenario_A_refs scenario_C_ref)
  have h3: "jsmap_get (index_rows [provider_extra, scenario_A_provider] []) ''T1'' =
              Some scenario_A_provider"
    by (simp add: scenario_A_refs provider_extra_ref)
  from C1_one_match_record [OF scenario_A_run h2 h3] scenario_A_run h2 h3 scenario_A_flags
  show ?thesis by simp
qed

section \<open>Amounts\<close>

lemma parseFloat_zero: "parseFloat ''0'' = Fin 0 0"
  by code_simp

lemma zero_amounts_match: "js_less (js_abs (js_sub (Fin 0 0) (Fin 0 0))) lit_0_01"
  by code_simp

lemma amount_of_falsy:
  "txn ''amount'' = None \<or> txn ''amount'' = Some [] \<Longrightarrow> amount_of txn = Fin 0 0"
  by (auto simp: amount_of_def js_or_str_def parseFloat_zero)

text \<open>
  Claim C2, amended. A row whose \<open>amount\<close> is absent or the empty string enters the
  comparison with the amount 0; when both rows of a key that both indexes hold are such
  rows, \<open>amount_match\<close> is true.
\<close>

theorem C2_absent_amount_is_zero:
  assumes "reconcileTransactions this internalData providerData = (Inr res, this')"
    and "jsmap_get (index_rows internalData []) k = Some internalTxn"
    and "jsmap_get (index_rows providerData []) k = Some providerTxn"
    and "internalTxn ''amount'' = None \<or> internalTxn ''amount'' = Some []"
    and "providerTxn ''amount'' = None \<or> providerTxn ''amount'' = Some []"
  shows "amount_of internalTxn = Fin 0 0 \<and> amount_of providerTxn = Fin 0 0 \<and>
         (\<exists>m. filter (\<lambda>x. transaction_reference x = k) (matched res @ mismatched res) = [m] \<and>
              amount_match m)"
proof -
  have a: "amount_of internalTxn = Fin 0 0" "amount_of providerTxn = Fin 0 0"
    using assms(4,5) by (simp_all add: amount_of_falsy)
  then have "amount_match (make_matchData k internalTxn providerTxn)"
    by (simp add: make_matchData_def Let_def zero_amounts_match)
  with a match_record_for_key [OF assms(1,2,3)] show ?thesis by simp
qed

lemma no_amount_refs:
  "ref_of no_amount_row = ''T7''" "ref_of empty_amount_row = ''T7''"
  by code_simp+

lemma no_amount_flags:
  "amount_match (make_matchData ''T7'' no_amount_row empty_amount_row)"
  "status_match (make_matchData ''T7'' no_amount_row empty_amount_row)"
  by code_simp+

lemma no_amount_run:
  "reconcileTransactions new_tool [no_amount_row] [empty_amount_row] =
     (Inr \<lparr>matched = [make_matchData ''T7'' no_amount_row empty_amount_row],
           mismatched = [], internal_only = [], provider_only = [],
           summary = Some \<lparr>total_internal = 1, total_provider = 1, matched_count = 1,
                           mismatched_count = 0, internal_only_count = 0,
                           provider_only_count = 0\<rparr>\<rparr>, new_tool)"
  by (simp add: reconcileTransactions_def no_amount_refs no_amount_flags)

text \<open>
  One row without an \<open>amount\<close> property, one whose \<open>amount\<close> is the empty string.
\<close>

theorem C2_absent_amount_is_zero_witness:
  "reconcileTransactions new_tool [no_amount_row] [empty_amount_row] =
     (Inr \<lparr>matched = [make_matchData ''T7'' no_amount_row empty_amount_row],
           mismatched = [], internal_only = [], provider_only = [],
           summary = Some \<lparr>total_internal = 1, total_provider = 1, matched_count = 1,
                           mismatched_count = 0, internal_only_count = 0,
                           provider_only_count = 0\<rparr>\<rparr>, new_tool) \<and>
   jsmap_get (index_rows [no_amount_row] []) ''T7'' = Some no_amount_row \<and>
   jsmap_get (index_rows [empty_amount_row] []) ''T7'' = Some empty_amount_row \<and>
   no_amount_row ''amount'' = None \<and> empty_amount_row ''amount'' = Some [] \<and>
   amount_of no_amount_row = Fin 0 0 \<and> amount_of empty_amount_row = Fin 0 0 \<and>
   amount_match (make_matchData ''T7'' no_amount_row empty_amount_row)"
proof -
  have h2: "jsmap_get (index_rows [no_amount_row] []) ''T7'' = Some no_amount_row"
    by (simp add: no_amount_refs)
  have h3: "jsmap_get (index_rows [empty_amount_row] []) ''T7'' = Some empty_amount_row"
    by (simp add: no_amount_refs)
  have h4: "no_amount_row ''amount'' = None"
    by (simp add: no_amount_row_def)
  have h5: "empty_amount_row ''amount'' = Some []"
    by (simp add: empty_amount_row_def)
  from C2_absent_amount_is_zero [OF no_amount_run h2 h3 disjI1 [OF h4] disjI2 [OF h5]]
    no_amount_run h2 h3 h4 h5
  show ?thesis by simp
qed

lemma unparsable_facts:
  "ref_of unparsable_row = ''T1''"
  "amount_of unparsable_row = NaN"
  "\<not> amount_match (make_matchData ''T1'' unparsable_row unparsable_row)"
  "\<not> fully_matched (make_matchData ''T1'' unparsable_row unparsable_row)"
  by code_simp+

text \<open>
  Claim C2 as stated fails for an amount that is not a number: \<^verbatim>\<open>parseFloat("abc")\<close>
  is NaN, not 0, the difference of two NaN is NaN, and NaN is not below 0.01. Two rows
  with key \<open>T1\<close> and amount \<open>abc\<close> end up in \<open>mismatched\<close> with \<open>amount_match\<close>
  false.
\<close>

theorem C2_unparsable_amount_counterexample:
  "unparsable_row ''amount'' = Some ''abc'' \<and>
   amount_of unparsable_row = NaN \<and>
   reconcileTransactions new_tool [unparsable_row] [unparsable_row] =
     (Inr \<lparr>matched = [],
           mismatched = [make_matchData ''T1'' unparsable_row unparsable_row],
           internal_only = [], provider_only = [],
           summary = Some \<lparr>total_internal = 1, total_provider = 1, matched_count = 0,
                           mismatched_count = 1, internal_only_count = 0,
                           provider_only_count = 0\<rparr>\<rparr>, new_tool) \<and>
   \<not> amount_match (make_matchData ''T1'' unparsable_row unparsable_row)"
  by (simp add: reconcileTransactions_def unparsable_facts) (simp add: unparsable_row_def)

section \<open>Keys\<close>

lemma js_or_str_js_or:
  "js_or_str (js_or (js_or a b) c) [] =
     (if truthy a then the a else if truthy b then the b else if truthy c then the c else [])"
  by (auto simp: js_or_str_def js_or_def truthy_def split: option.splits)

lemma no_ref_not_indexed: "ref_of row = [] \<Longrightarrow> row \<notin> snd ` set (index_rows rows [])"
  using index_entry by fastforce

lemma output_rows_keyed:
  assumes "reconcileTransactions this internalData providerData = (Inr res, this')"
  shows "r \<in> set (internal_only res) \<Longrightarrow> ref_of r \<noteq> []"
    and "r \<in> set (provider_only res) \<Longrightarrow> ref_of r \<noteq> []"
    and "m \<in> set (matched res @ mismatched res) \<Longrightarrow>
           ref_of (internal m) \<noteq> [] \<and> ref_of (provider m) \<noteq> []"
proof -
  let ?im = "index_rows internalData []" and ?pm = "index_rows providerData []"
  note f = reconcile_fields [OF assms]
  show "r \<in> set (internal_only res) \<Longrightarrow> ref_of r \<noteq> []"
    using unpaired_entry [of r ?im ?pm] index_entry [of _ r internalData] by (auto simp: f)
  show "r \<in> set (provider_only res) \<Longrightarrow> ref_of r \<noteq> []"
    using unpaired_entry [of r ?pm ?im] index_entry [of _ r providerData] by (auto simp: f)
  show "ref_of (internal m) \<noteq> [] \<and> ref_of (provider m) \<noteq> []"
    if "m \<in> set (matched res @ mismatched res)"
  proof -
    from that have "m \<in> set (paired ?im ?pm)" by (auto simp: f)
    from paired_entry [OF this] obtain r pr
      where e: "(transaction_reference m, r) \<in> set ?im"
        "jsmap_get ?pm (transaction_reference m) = Some pr"
        "m = make_matchData (transaction_reference m) r pr"
      by blast
    from e(3) have i: "internal m = r" "provider m = pr"
      by (metis make_matchData_sel(2), metis make_matchData_sel(3))
    have "ref_of r \<noteq> []"
      using index_entry [OF e(1)] by simp
    moreover have "ref_of pr \<noteq> []"
      using index_entry [OF jsmap_get_entry [OF e(2)]] by simp
    ultimately show ?thesis by (simp add: i)
  qed
qed

text \<open>
  Claim C3, amended. The key of a row is the trimmed value of the first of
  \<open>transaction_reference\<close>, \<open>reference\<close>, \<open>id\<close> that is present and not the
  empty string; the choice is made before trimming. With no such field the key is
  empty. A row whose key is empty is in neither index and in no output category.
\<close>

theorem C3_key_of_first_nonempty_field:
  assumes "reconcileTransactions this internalData providerData = (Inr res, this')"
  shows "ref_of row =
           trim (if truthy (row ''transaction_reference'') then the (row ''transaction_reference'')
                 else if truthy (row ''reference'') then the (row ''reference'')
                 else if truthy (row ''id'') then the (row ''id'')
                 else []) \<and>
         (ref_of row = [] \<longrightarrow>
            row \<notin> snd ` set (index_rows internalData []) \<and>
            row \<notin> snd ` set (index_rows providerData []) \<and>
            row \<notin> set (internal_only res) \<and> row \<notin> set (provider_only res) \<and>
            (\<forall>m \<in> set (matched res @ mismatched res). internal m \<noteq> row \<and> provider m \<noteq> row))"
proof (intro conjI impI)
  show "ref_of row =
          trim (if truthy (row ''transaction_reference'') then the (row ''transaction_reference'')
                else if truthy (row ''reference'') then the (row ''reference'')
                else if truthy (row ''id'') then the (row ''id'')
                else [])"
    by (simp only: ref_of_def js_or_str_js_or)
next
  assume e: "ref_of row = []"
  then show "row \<notin> snd ` set (index_rows internalData [])"
    and "row \<notin> snd ` set (index_rows providerData [])"
    by (rule no_ref_not_indexed)+
  from e output_rows_keyed(1) [OF assms] show "row \<notin> set (internal_only res)" by blast
  from e output_rows_keyed(2) [OF assms] show "row \<notin> set (provider_only res)" by blast
  from e output_rows_keyed(3) [OF assms]
  show "\<forall>m \<in> set (matched res @ mismatched res). internal m \<noteq> row \<and> provider m \<noteq> row"
    by blast
qed

lemma whitespace_ref: "ref_of whitespace_ref_row = []"
  by code_simp

lemma whitespace_ref_run:
  "reconcileTransactions new_tool [whitespace_ref_row, scenario_A_internal, scenario_C_internal]
       [provider_extra, scenario_A_provider] =
     (Inr \<lparr>matched = [make_matchData ''T1'' scenario_A_internal scenario_A_provider],
           mismatched = [], internal_only = [scenario_C_internal],
           provider_only = [provider_extra],
           summary = Some \<lparr>total_internal = 3, total_provider = 2, matched_count = 1,
                           mismatched_count = 0, internal_only_count = 1,
                           provider_only_count = 1\<rparr>\<rparr>, new_tool)"
  by (simp add: reconcileTransactions_def whitespace_ref scenario_A_refs scenario_A_flags
        scenario_C_ref provider_extra_ref)

text \<open>
  A row whose \<open>transaction_reference\<close> is a single space and whose \<open>reference\<close> is
  \<open>R1\<close>: the space is chosen, trims to the empty string, and the row is dropped,
  while the rows next to it fill three categories.
\<close>

theorem C3_key_of_first_nonempty_field_witness:
  "reconcileTransactions new_tool [whitespace_ref_row, scenario_A_internal, scenario_C_internal]
       [provider_extra, scenario_A_provider] =
     (Inr \<lparr>matched = [make_matchData ''T1'' scenario_A_internal scenario_A_provider],
           mismatched = [], internal_only = [scenario_C_internal],
           provider_only = [provider_extra],
           summary = Some \<lparr>total_internal = 3, total_provider = 2, matched_count = 1,
                           mismatched_count = 0, internal_only_count = 1,
                           provider_only_count = 1\<rparr>\<rparr>, new_tool) \<and>
   truthy (whitespace_ref_row ''transaction_reference'') \<and>
   ref_of whitespace_ref_row = trim '' '' \<and> ref_of whitespace_ref_row = [] \<and>
   whitespace_ref_row \<notin>
     snd ` set (index_rows [whitespace_ref_row, scenario_A_internal, scenario_C_internal] []) \<and>
   whitespace_ref_row \<notin> set [scenario_C_internal] \<and>
   whitespace_ref_row \<notin> set [provider_extra] \<and>
   internal (make_matchData ''T1'' scenario_A_internal scenario_A_provider) \<noteq>
     whitespace_ref_row \<and>
   provider (make_matchData ''T1'' scenario_A_internal scenario_A_provider) \<noteq>
     whitespace_ref_row"
proof -
  have t: "truthy (whitespace_ref_row ''transaction_reference'')"
    "the (whitespace_ref_row ''transaction_reference'') = '' ''"
    by (simp_all add: whitespace_ref_row_def truthy_def)
  note c = C3_key_of_first_nonempty_field [OF whitespace_ref_run, of whitespace_ref_row]
  from c have "ref_of whitespace_ref_row = trim '' ''"
    by (simp add: t)
  moreover from c whitespace_ref
  have "whitespace_ref_row \<notin>
          snd ` set (index_rows [whitespace_ref_row, scenario_A_internal, scenario_C_internal] [])"
    and "whitespace_ref_row \<notin> set [scenario_C_internal]"
    and "whitespace_ref_row \<notin> set [provider_extra]"
    and "internal (make_matchData ''T1'' scenario_A_internal scenario_A_provider) \<noteq>
           whitespace_ref_row"
    and "provider (make_matchData ''T1'' scenario_A_internal scenario_A_provider) \<noteq>
           whitespace_ref_row"
    by (simp_all add: scenario_A_refs scenario_C_ref provider_extra_ref)
  ultimately show ?thesis
    using whitespace_ref_run whitespace_ref t(1) by (simp only: simp_thms)
qed

text \<open>
  Claim C3 as stated fails on that row: \<open>transaction_reference\<close> trims to the empty
  string and \<open>reference\<close> does not, yet the key is empty rather than \<open>R1\<close>, and the
  row is not indexed.
\<close>

theorem C3_whitespace_field_counterexample:
  "whitespace_ref_row ''transaction_reference'' = Some '' '' \<and> trim '' '' = [] \<and>
   whitespace_ref_row ''reference'' = Some ''R1'' \<and> trim ''R1'' = ''R1'' \<and>
   ref_of whitespace_ref_row = [] \<and>
   index_rows [whitespace_ref_row] [] = []"
  by (simp add: whitespace_ref) (simp add: whitespace_ref_row_def trim_def is_white_space_def)

section \<open>The comparison rules\<close>

subsection \<open>Rounding to binary64\<close>

lemma lit_0_01_value: "lit_0_01 = Fin 5764607523034235 (- 59)"
  by code_simp

lemma bitlen_bounds:
  "0 < n \<Longrightarrow> 0 < bitlen n \<and> 2 ^ nat (bitlen n - 1) \<le> n \<and> n < 2 ^ nat (bitlen n)"
proof (induction n rule: bitlen.induct)
  case (1 n)
  show ?case
  proof (cases "n div 2 = 0")
    case True
    with "1.prems" have "n = 1" by presburger
    then show ?thesis by (simp add: bitlen.simps)
  next
    case False
    with "1.prems" have h: "0 < n div 2" by presburger
    let ?b = "bitlen (n div 2)"
    from "1.IH" "1.prems" h
    have b: "0 < ?b" "2 ^ nat (?b - 1) \<le> n div 2" "n div 2 < 2 ^ nat ?b"
      by auto
    have e: "bitlen n = 1 + ?b"
      using "1.prems" by (subst bitlen.simps) simp
    have p: "(2::int) ^ nat ?b = 2 * 2 ^ nat (?b - 1)"
      using b(1) by (metis Suc_nat_eq_nat_zadd1 add.commute diff_add_cancel diff_ge_0_iff_ge
          int_one_le_iff_zero_less power_Suc)
    have "2 ^ nat ?b \<le> n" using b(2) p by presburger
    moreover have "n < 2 * 2 ^ nat ?b" using b(3) by presburger
    moreover have "nat (1 + ?b) = Suc (nat ?b)" using b(1) by simp
    ultimately show ?thesis using b(1) by (simp add: e)
  qed
qed

lemma bitlen_powi:
  assumes "0 < n"
  shows "2 powi (bitlen n - 1) \<le> (of_int n :: rat)" and "(of_int n :: rat) < 2 powi bitlen n"
proof -
  from bitlen_bounds [OF assms]
  have b: "0 < bitlen n" "2 ^ nat (bitlen n - 1) \<le> n" "n < 2 ^ nat (bitlen n)" by auto
  have "(2::rat) powi (bitlen n - 1) = 2 ^ nat (bitlen n - 1)"
    using b(1) by (simp add: power_int_nonneg_exp)
  also have "\<dots> = of_int (2 ^ nat (bitlen n - 1))" by simp
  also have "\<dots> \<le> of_int n" using b(2) by (simp only: of_int_le_iff)
  finally show "2 powi (bitlen n - 1) \<le> (of_int n :: rat)" .
  have "(of_int n :: rat) < of_int (2 ^ nat (bitlen n))" using b(3) by (simp only: of_int_less_iff)
  also have "\<dots> = 2 powi bitlen n"
    using b(1) by (simp add: power_int_nonneg_exp)
  finally show "(of_int n :: rat) < 2 powi bitlen n" .
qed

lemma round_half_even_floor:
  fixes num den :: int
  assumes "0 < den"
  defines "x \<equiv> (of_int num / of_int den :: rat)"
  shows "round_half_even num den =
           (if x - of_int \<lfloor>x\<rfloor> < 1 / 2 then \<lfloor>x\<rfloor>
            else if 1 / 2 < x - of_int \<lfloor>x\<rfloor> then \<lfloor>x\<rfloor> + 1
            else if even \<lfloor>x\<rfloor> then \<lfloor>x\<rfloor> else \<lfloor>x\<rfloor> + 1)"
proof -
  have f: "\<lfloor>x\<rfloor> = num div den"
    unfolding x_def by (rule floor_divide_of_int_eq)
  have d: "(0::rat) < of_int den" using assms(1) by simp
  have m: "(of_int (num mod den) :: rat) = (x - of_int (num div den)) * of_int den"
  proof -
    have "num mod den = num - (num div den) * den"
      by (simp add: minus_div_mult_eq_mod)
    then have "(of_int (num mod den) :: rat) = of_int num - of_int (num div den) * of_int den"
      by simp
    also have "\<dots> = (x - of_int (num div den)) * of_int den"
      using d by (simp add: x_def field_simps)
    finally show ?thesis .
  qed
  have m2: "(of_int (2 * (num mod den)) :: rat) = (2 * (x - of_int (num div den))) * of_int den"
    by (simp add: m)
  have l: "2 * (num mod den) < den \<longleftrightarrow> x - of_int (num div den) < 1 / 2"
  proof -
    have "2 * (num mod den) < den \<longleftrightarrow> (of_int (2 * (num mod den)) :: rat) < of_int den"
      by (simp only: of_int_less_iff)
    also have "\<dots> \<longleftrightarrow> (2 * (x - of_int (num div den))) * of_int den < 1 * of_int den"
      by (simp only: m2 mult_1)
    also have "\<dots> \<longleftrightarrow> 2 * (x - of_int (num div den)) < 1"
      using d by (rule mult_less_cancel_right_pos)
    also have "\<dots> \<longleftrightarrow> x - of_int (num div den) < 1 / 2"
      by auto
    finally show ?thesis .
  qed
  have g: "den < 2 * (num mod den) \<longleftrightarrow> 1 / 2 < x - of_int (num div den)"
  proof -
    have "den < 2 * (num mod den) \<longleftrightarrow> (of_int den :: rat) < of_int (2 * (num mod den))"
      by (simp only: of_int_less_iff)
    also have "\<dots> \<longleftrightarrow> 1 * of_int den < (2 * (x - of_int (num div den))) * of_int den"
      by (simp only: m2 mult_1)
    also have "\<dots> \<longleftrightarrow> 1 < 2 * (x - of_int (num div den))"
      using d by (rule mult_less_cancel_right_pos)
    also have "\<dots> \<longleftrightarrow> 1 / 2 < x - of_int (num div den)"
      by auto
    finally show ?thesis .
  qed
  show ?thesis
    by (simp only: round_half_even_def Let_def l g f)
qed

lemma nearest_even_bounds:
  fixes x :: rat and f :: int
  assumes "of_int f \<le> x" "x < of_int f + 1"
  defines "r \<equiv> (if x - of_int f < 1 / 2 then f
                 else if 1 / 2 < x - of_int f then f + 1
                 else if even f then f else f + 1)"
  shows "of_int r \<le> x + 1 / 2" and "x - 1 / 2 \<le> of_int r"
    and "odd N \<Longrightarrow> r < N \<longleftrightarrow> x \<le> of_int N - 1 / 2"
proof -
  consider (lo) "x - of_int f < 1 / 2" | (hi) "1 / 2 < x - of_int f"
    | (te) "x - of_int f = 1 / 2" "even f" | (to) "x - of_int f = 1 / 2" "odd f"
    by fastforce
  then have r: "(r = f \<and> x - of_int f \<le> 1 / 2 \<and> (x - of_int f = 1 / 2 \<longrightarrow> even f)) \<or>
                (r = f + 1 \<and> 1 / 2 \<le> x - of_int f \<and> (x - of_int f = 1 / 2 \<longrightarrow> odd f))"
    by cases (simp_all add: r_def)
  from r assms(1,2) show "of_int r \<le> x + 1 / 2" by auto
  from r assms(1,2) show "x - 1 / 2 \<le> of_int r" by auto
  show "r < N \<longleftrightarrow> x \<le> of_int N - 1 / 2" if "odd N"
  proof -
    have c: "k < N \<longleftrightarrow> (of_int k :: rat) + 1 \<le> of_int N" for k
    proof -
      have "k < N \<longleftrightarrow> k + 1 \<le> N" by linarith
      also have "\<dots> \<longleftrightarrow> (of_int (k + 1) :: rat) \<le> of_int N" by (simp only: of_int_le_iff)
      finally show ?thesis by simp
    qed
    from r show ?thesis
    proof
      assume a: "r = f \<and> x - of_int f \<le> 1 / 2 \<and> (x - of_int f = 1 / 2 \<longrightarrow> even f)"
      show ?thesis
      proof (cases "x - of_int f = 1 / 2")
        case True
        then show ?thesis using a c [of f] by auto
      next
        case False
        with a have "x - of_int f < 1 / 2" by linarith
        then show ?thesis using a c [of f] assms(1) by auto
      qed
    next
      assume a: "r = f + 1 \<and> 1 / 2 \<le> x - of_int f \<and> (x - of_int f = 1 / 2 \<longrightarrow> odd f)"
      show ?thesis
      proof (cases "x - of_int f = 1 / 2")
        case True
        with a have "odd f" by simp
        with that have "f + 1 \<noteq> N" by auto
        then have "f + 1 < N \<longleftrightarrow> f < N" by linarith
        then show ?thesis using a True c [of f] by auto
      next
        case False
        with a have "1 / 2 < x - of_int f" by linarith
        then show ?thesis using a c [of "f + 1"] assms(2) by auto
      qed
    qed
  qed
qed

lemma round_half_even_near:
  assumes "0 < den"
  shows "(of_int (round_half_even num den) :: rat) \<le> of_int num / of_int den + 1 / 2"
    and "of_int num / of_int den - 1 / 2 \<le> (of_int (round_half_even num den) :: rat)"
proof -
  let ?x = "of_int num / of_int den :: rat"
  have b: "of_int \<lfloor>?x\<rfloor> \<le> ?x" "?x < of_int \<lfloor>?x\<rfloor> + 1" by linarith+
  show "(of_int (round_half_even num den) :: rat) \<le> ?x + 1 / 2"
    unfolding round_half_even_floor [OF assms] by (rule nearest_even_bounds(1) [OF b])
  show "?x - 1 / 2 \<le> (of_int (round_half_even num den) :: rat)"
    unfolding round_half_even_floor [OF assms] by (rule nearest_even_bounds(2) [OF b])
qed

lemma round_half_even_less_odd:
  assumes "0 < den" "odd N"
  shows "round_half_even num den < N \<longleftrightarrow> (of_int num / of_int den :: rat) \<le> of_int N - 1 / 2"
proof -
  let ?x = "of_int num / of_int den :: rat"
  have b: "of_int \<lfloor>?x\<rfloor> \<le> ?x" "?x < of_int \<lfloor>?x\<rfloor> + 1" by linarith+
  show ?thesis
    unfolding round_half_even_floor [OF assms(1)] by (rule nearest_even_bounds(3) [OF b assms(2)])
qed

subsection \<open>Comparison and subtraction on exact values\<close>

lemma pow2_pos: "(0::rat) < 2 powi e"
  by simp

lemma pow2_less_iff: "(2::rat) powi a < 2 powi b \<longleftrightarrow> a < b"
  by (metis (no_types) one_less_numeral_iff power_int_strict_increasing power_int_increasing
      linorder_not_less semiring_norm(76) less_le)

lemma pow2_le_iff: "(2::rat) powi a \<le> 2 powi b \<longleftrightarrow> a \<le> b"
  using pow2_less_iff [of b a] by (simp add: linorder_not_less [symmetric])

lemma pow2_add: "(2::rat) powi (a + b) = 2 powi a * 2 powi b"
  by (simp add: power_int_add)

lemma pow2_diff: "(2::rat) powi (a - b) = 2 powi a / 2 powi b"
  by (simp add: power_int_diff)

lemma pow2_nat: "0 \<le> e \<Longrightarrow> (2::rat) powi e = of_int (2 ^ nat e)"
  by (simp add: power_int_nonneg_exp)

lemma pow2_neg_nat: "e < 0 \<Longrightarrow> (2::rat) powi e = 1 / of_int (2 ^ nat (- e))"
  by (simp add: power_int_def power_one_over)

lemma js_less_Fin:
  "js_less (Fin m1 e1) (Fin m2 e2) \<longleftrightarrow>
     (of_int m1 * 2 powi e1 :: rat) < of_int m2 * 2 powi e2"
proof -
  define e where "e = min e1 e2"
  have n: "0 \<le> e1 - e" "0 \<le> e2 - e" by (simp_all add: e_def)
  have "js_less (Fin m1 e1) (Fin m2 e2) \<longleftrightarrow>
          m1 * 2 ^ nat (e1 - e) < m2 * 2 ^ nat (e2 - e)"
    by (simp add: js_less_def Let_def e_def)
  also have "\<dots> \<longleftrightarrow> (of_int (m1 * 2 ^ nat (e1 - e)) :: rat) < of_int (m2 * 2 ^ nat (e2 - e))"
    by (simp only: of_int_less_iff)
  also have "\<dots> \<longleftrightarrow> (of_int m1 * 2 powi (e1 - e) :: rat) < of_int m2 * 2 powi (e2 - e)"
    using n by (simp add: pow2_nat)
  also have "\<dots> \<longleftrightarrow> (of_int m1 * 2 powi (e1 - e)) * 2 powi e < (of_int m2 * 2 powi (e2 - e)) * (2::rat) powi e"
    using pow2_pos [of e] by (simp only: mult_less_cancel_right_pos)
  also have "\<dots> \<longleftrightarrow> (of_int m1 * 2 powi e1 :: rat) < of_int m2 * 2 powi e2"
    by (simp add: pow2_diff)
  finally show ?thesis .
qed

lemma js_sub_Fin:
  "\<exists>P D. 0 < D \<and> js_sub (Fin m1 e1) (Fin m2 e2) = round_double P D \<and>
          (of_int P / of_int D :: rat) = of_int m1 * 2 powi e1 - of_int m2 * 2 powi e2"
proof -
  define e where "e = min e1 e2"
  define p where "p = m1 * 2 ^ nat (e1 - e) - m2 * 2 ^ nat (e2 - e)"
  have n: "0 \<le> e1 - e" "0 \<le> e2 - e" by (simp_all add: e_def)
  have v: "(of_int p :: rat) * 2 powi e = of_int m1 * 2 powi e1 - of_int m2 * 2 powi e2"
  proof -
    have "(of_int p :: rat) = of_int m1 * 2 powi (e1 - e) - of_int m2 * 2 powi (e2 - e)"
      using n by (simp add: p_def pow2_nat)
    moreover have "2 powi (a - e) * 2 powi e = (2::rat) powi a" for a
      using power_int_add [of "2::rat" "a - e" e] by simp
    ultimately show ?thesis by (simp add: left_diff_distrib mult.assoc)
  qed
  show ?thesis
  proof (cases "0 \<le> e")
    case True
    then have "js_sub (Fin m1 e1) (Fin m2 e2) = round_double (p * 2 ^ nat e) 1"
      by (auto simp: js_sub_def Let_def e_def p_def)
    moreover have "(of_int (p * 2 ^ nat e) / of_int 1 :: rat) = of_int p * 2 powi e"
      using True by (simp add: pow2_nat)
    ultimately show ?thesis using v by (intro exI [of _ "p * 2 ^ nat e"] exI [of _ 1]) simp
  next
    case False
    then have "js_sub (Fin m1 e1) (Fin m2 e2) = round_double p (2 ^ nat (- e))"
      by (auto simp: js_sub_def Let_def e_def p_def)
    moreover have "(of_int p / of_int (2 ^ nat (- e)) :: rat) = of_int p * 2 powi e"
      using False by (simp add: pow2_neg_nat)
    ultimately show ?thesis using v
      by (intro exI [of _ p] exI [of _ "2 ^ nat (- e)"]) simp
  qed
qed

lemma round_double_parts:
  assumes D: "0 < D" and P: "P \<noteq> 0"
  defines "r \<equiv> \<bar>of_int P / of_int D :: rat\<bar>"
  shows "\<exists>e n. 2 powi e \<le> r \<and> r < 2 powi (e + 1) \<and>
           of_int n \<le> r / 2 powi (max (e - 52) (- 1074)) + 1 / 2 \<and>
           r / 2 powi (max (e - 52) (- 1074)) - 1 / 2 \<le> of_int n \<and>
           (\<forall>N. odd N \<longrightarrow> (n < N \<longleftrightarrow> r / 2 powi (max (e - 52) (- 1074)) \<le> of_int N - 1 / 2)) \<and>
           round_double P D =
             (if (if n = 2 ^ 53 then 2 ^ 52 else n) = 0 then Fin 0 0
              else if 971 < (if n = 2 ^ 53 then max (e - 52) (- 1074) + 1 else max (e - 52) (- 1074))
                then (if P < 0 then NInf else PInf)
              else Fin (if P < 0 then - (if n = 2 ^ 53 then 2 ^ 52 else n)
                        else (if n = 2 ^ 53 then 2 ^ 52 else n))
                       (if n = 2 ^ 53 then max (e - 52) (- 1074) + 1 else max (e - 52) (- 1074)))"
proof -
  define a where "a = \<bar>P\<bar>"
  define e0 where "e0 = bitlen a - bitlen D"
  define e where "e = (if (if 0 \<le> e0 then D * 2 ^ nat e0 \<le> a else D \<le> a * 2 ^ nat (- e0))
                       then e0 else e0 - 1)"
  define u where "u = max (e - 52) (- 1074)"
  define n where "n = (if 0 \<le> u then round_half_even a (D * 2 ^ nat u)
                       else round_half_even (a * 2 ^ nat (- u)) D)"
  have a: "0 < a" using P by (simp add: a_def)
  have dq: "(0::rat) < of_int D" using D by simp
  have r: "r = of_int a / of_int D"
    using D by (simp add: r_def a_def abs_divide del: of_int_abs)
  have ra: "r * of_int D = of_int a" using dq by (simp add: r)
  note ba = bitlen_powi [OF a] and bd = bitlen_powi [OF D]
  have up: "r < 2 powi (e0 + 1)"
  proof -
    have "of_int a < (2::rat) powi bitlen a" by (rule ba(2))
    also have "\<dots> = 2 powi (e0 + 1) * 2 powi (bitlen D - 1)"
      using power_int_add [of "2::rat" "e0 + 1" "bitlen D - 1"] by (simp add: e0_def)
    also have "\<dots> \<le> 2 powi (e0 + 1) * of_int D"
      using bd(1) by (simp add: mult_left_mono)
    finally have "r * of_int D < 2 powi (e0 + 1) * of_int D" by (simp only: ra)
    then show ?thesis using dq by (simp only: mult_less_cancel_right_pos)
  qed
  have lo: "2 powi (e0 - 1) < r"
  proof -
    have "2 powi (e0 - 1) * of_int D < 2 powi (e0 - 1) * (2::rat) powi bitlen D"
      using bd(2) by (simp add: mult_strict_left_mono)
    also have "\<dots> = 2 powi (bitlen a - 1)"
      using power_int_add [of "2::rat" "e0 - 1" "bitlen D"] by (simp add: e0_def)
    also have "\<dots> \<le> of_int a" by (rule ba(1))
    finally have "2 powi (e0 - 1) * of_int D < r * of_int D" by (simp only: ra)
    then show ?thesis using dq by (simp only: mult_less_cancel_right_pos)
  qed
  have test: "(if 0 \<le> e0 then D * 2 ^ nat e0 \<le> a else D \<le> a * 2 ^ nat (- e0)) \<longleftrightarrow>
                2 powi e0 \<le> r"
  proof (cases "0 \<le> e0")
    case True
    have "D * 2 ^ nat e0 \<le> a \<longleftrightarrow> (of_int (D * 2 ^ nat e0) :: rat) \<le> of_int a"
      by (simp only: of_int_le_iff)
    also have "\<dots> \<longleftrightarrow> 2 powi e0 * of_int D \<le> r * of_int D"
      using True by (simp add: ra pow2_nat mult.commute)
    also have "\<dots> \<longleftrightarrow> 2 powi e0 \<le> r"
      using dq by (simp only: mult_le_cancel_right_pos)
    finally show ?thesis using True by simp
  next
    case False
    then have ne: "e0 < 0" by simp
    have k: "(2::rat) powi e0 * of_int (2 ^ nat (- e0)) = 1"
      using ne by (simp add: pow2_neg_nat)
    have p: "(0::rat) < of_int (2 ^ nat (- e0))" by simp
    have "D \<le> a * 2 ^ nat (- e0) \<longleftrightarrow> (of_int D :: rat) \<le> of_int (a * 2 ^ nat (- e0))"
      by (simp only: of_int_le_iff)
    also have "\<dots> \<longleftrightarrow> (2 powi e0 * of_int D) * of_int (2 ^ nat (- e0)) \<le>
                     (r * of_int D) * of_int (2 ^ nat (- e0))"
    proof -
      have "(2 powi e0 * of_int D) * of_int (2 ^ nat (- e0)) =
              (of_int D :: rat) * (2 powi e0 * of_int (2 ^ nat (- e0)))"
        by (simp only: mult_ac)
      then show ?thesis by (simp only: k ra) simp
    qed
    also have "\<dots> \<longleftrightarrow> 2 powi e0 * of_int D \<le> r * of_int D"
      using p by (simp only: mult_le_cancel_right_pos)
    also have "\<dots> \<longleftrightarrow> 2 powi e0 \<le> r"
      using dq by (simp only: mult_le_cancel_right_pos)
    finally show ?thesis using False by simp
  qed
  have br: "2 powi e \<le> r" "r < 2 powi (e + 1)"
  proof -
    show "2 powi e \<le> r"
    proof (cases "2 powi e0 \<le> r")
      case True
      then show ?thesis by (simp add: e_def test)
    next
      case False
      then show ?thesis using lo by (simp add: e_def test)
    qed
    show "r < 2 powi (e + 1)"
    proof (cases "2 powi e0 \<le> r")
      case True
      then show ?thesis using up by (simp add: e_def test)
    next
      case False
      then show ?thesis by (simp add: e_def test)
    qed
  qed
  define x where "x = r / 2 powi u"
  have "\<exists>num den. 0 < den \<and> n = round_half_even num den \<and> (of_int num / of_int den :: rat) = x"
  proof (cases "0 \<le> u")
    case True
    have q: "(of_int a / of_int (D * 2 ^ nat u) :: rat) = x"
      using True by (simp add: x_def r pow2_nat)
    have d: "0 < D * 2 ^ nat u" using D by simp
    have "n = round_half_even a (D * 2 ^ nat u)" using True by (simp add: n_def)
    with d q show ?thesis by blast
  next
    case False
    then have q: "(of_int (a * 2 ^ nat (- u)) / of_int D :: rat) = x"
      by (simp add: x_def r pow2_neg_nat)
    have "n = round_half_even (a * 2 ^ nat (- u)) D" using False by (simp add: n_def)
    with D q show ?thesis by blast
  qed
  then obtain num den where nd: "0 < den" "n = round_half_even num den"
    "(of_int num / of_int den :: rat) = x" by blast
  have n1: "of_int n \<le> x + 1 / 2" "x - 1 / 2 \<le> of_int n"
    using round_half_even_near [OF nd(1), of num] by (simp_all only: nd(2,3))
  have n2: "\<forall>N. odd N \<longrightarrow> (n < N \<longleftrightarrow> x \<le> of_int N - 1 / 2)"
    using round_half_even_less_odd [OF nd(1), of _ num] by (simp only: nd(2,3)) blast
  have res: "round_double P D =
             (if (if n = 2 ^ 53 then 2 ^ 52 else n) = 0 then Fin 0 0
              else if 971 < (if n = 2 ^ 53 then u + 1 else u)
                then (if P < 0 then NInf else PInf)
              else Fin (if P < 0 then - (if n = 2 ^ 53 then 2 ^ 52 else n)
                        else (if n = 2 ^ 53 then 2 ^ 52 else n))
                       (if n = 2 ^ 53 then u + 1 else u))"
    using P unfolding round_double_def Let_def n_def u_def e_def e0_def a_def by simp
  show ?thesis
    using br n1 n2 res unfolding x_def u_def by blast
qed

lemma int_le_of_rat_less:
  fixes n k :: int
  assumes "(of_int n :: rat) < of_int k + 1"
  shows "n \<le> k"
proof -
  from assms have "(of_int n :: rat) < of_int (k + 1)" by simp
  then have "n < k + 1" by (simp only: of_int_less_iff)
  then show ?thesis by simp
qed

lemma int_ge_of_rat_less:
  fixes n k :: int
  assumes "(of_int k :: rat) - 1 < of_int n"
  shows "k \<le> n"
proof -
  from assms have "(of_int (k - 1) :: rat) < of_int n" by simp
  then have "k - 1 < n" by (simp only: of_int_less_iff)
  then show ?thesis by simp
qed

lemma pow2_split: "(2::rat) powi (k + (e - 52)) = 2 powi k * 2 powi (e - 52)"
  by (rule power_int_add) simp

lemma pow2_split_53: "(2::rat) powi (e + 1) = 2 powi 53 * 2 powi (e - 52)"
proof -
  have "53 + (e - 52) = e + 1" by simp
  with pow2_split [of 53 e] show ?thesis by (simp only:)
qed

lemma pow2_split_52: "(2::rat) powi e = 2 powi 52 * 2 powi (e - 52)"
proof -
  have "52 + (e - 52) = e" by simp
  with pow2_split [of 52 e] show ?thesis by (simp only:)
qed

lemma round_double_threshold:
  assumes D: "0 < D"
  shows "js_less (js_abs (round_double P D)) lit_0_01 \<longleftrightarrow>
           \<bar>of_int P / of_int D :: rat\<bar> \<le> amount_threshold"
proof (cases "P = 0")
  case True
  then show ?thesis
    by (simp add: round_double_def js_abs_def js_less_Fin lit_0_01_value amount_threshold_def)
next
  case False
  define r where "r = \<bar>of_int P / of_int D :: rat\<bar>"
  from round_double_parts [OF D False, folded r_def] obtain e n
    where br: "2 powi e \<le> r" "r < 2 powi (e + 1)"
      and n1: "of_int n \<le> r / 2 powi (max (e - 52) (- 1074)) + 1 / 2"
        "r / 2 powi (max (e - 52) (- 1074)) - 1 / 2 \<le> of_int n"
      and n2: "\<forall>N. odd N \<longrightarrow> (n < N \<longleftrightarrow> r / 2 powi (max (e - 52) (- 1074)) \<le> of_int N - 1 / 2)"
      and res: "round_double P D =
             (if (if n = 2 ^ 53 then 2 ^ 52 else n) = 0 then Fin 0 0
              else if 971 < (if n = 2 ^ 53 then max (e - 52) (- 1074) + 1 else max (e - 52) (- 1074))
                then (if P < 0 then NInf else PInf)
              else Fin (if P < 0 then - (if n = 2 ^ 53 then 2 ^ 52 else n)
                        else (if n = 2 ^ 53 then 2 ^ 52 else n))
                       (if n = 2 ^ 53 then max (e - 52) (- 1074) + 1 else max (e - 52) (- 1074)))"
    by blast
  define u where "u = max (e - 52) (- 1074)"
  define x where "x = r / 2 powi u"
  define n' where "n' = (if n = 2 ^ 53 then 2 ^ 52 else n)"
  define u' where "u' = (if n = 2 ^ 53 then u + 1 else u)"
  define c :: rat where "c = 5764607523034235 * 2 powi (- 59)"
  note n1 = n1 [folded u_def, folded x_def] and n2 = n2 [folded u_def, folded x_def]
    and res = res [folded u_def, folded n'_def u'_def]
  have rpos: "0 < r" using br(1) pow2_pos [of e] by linarith
  have up: "(0::rat) < 2 powi u" by simp
  have xr: "x * 2 powi u = r" by (simp add: x_def)
  have xpos: "0 < x" using rpos by (simp add: x_def)
  have nn: "0 \<le> n"
  proof -
    have "(of_int 0 :: rat) - 1 < of_int n" using n1(2) xpos by simp
    then show ?thesis by (rule int_ge_of_rat_less)
  qed
  then have nn': "0 \<le> n'" by (simp add: n'_def)
  have val: "(of_int n' :: rat) * 2 powi u' = of_int n * 2 powi u"
  proof (cases "n = 2 ^ 53")
    case True
    have "(2::rat) powi (u + 1) = 2 powi u * 2"
      using power_int_add [of "2::rat" u 1] by simp
    with True show ?thesis by (simp add: n'_def u'_def)
  next
    case False
    then show ?thesis by (simp add: n'_def u'_def)
  qed
  have L: "js_less (js_abs (round_double P D)) lit_0_01 \<longleftrightarrow>
             (n' = 0 \<or> \<not> 971 < u') \<and> (of_int n :: rat) * 2 powi u < c"
  proof (cases "n' = 0")
    case True
    with val have "(of_int n :: rat) * 2 powi u = 0" by simp
    with True show ?thesis
      by (simp add: res js_abs_def js_less_Fin lit_0_01_value c_def)
  next
    case z: False
    show ?thesis
    proof (cases "971 < u'")
      case True
      with z show ?thesis by (simp add: res js_abs_def js_less_def)
    next
      case False
      have "js_abs (round_double P D) = Fin n' u'"
        using z False nn' by (simp add: res js_abs_def)
      with z False show ?thesis
        by (simp add: js_less_Fin lit_0_01_value c_def val)
    qed
  qed
  consider (small) "r < 2 powi (- 7)" | (mid) "2 powi (- 7) \<le> r" "r < 2 powi (- 6)"
    | (large) "2 powi (- 6) \<le> r"
    by linarith
  then show ?thesis
  proof cases
    case small
    with br(1) have "(2::rat) powi e < 2 powi (- 7)" by linarith
    then have e: "e < - 7" by (simp only: pow2_less_iff)
    then have ule: "u \<le> - 60" by (simp add: u_def)
    have uge: "e - 52 \<le> u" by (simp add: u_def)
    have "x * 2 powi u = r" by (rule xr)
    also have "\<dots> < 2 powi (e + 1)" by (rule br(2))
    also have "\<dots> = 2 powi 53 * 2 powi (e - 52)" by (rule pow2_split_53)
    also have "\<dots> \<le> 2 powi 53 * 2 powi u"
    proof -
      have "(2::rat) powi (e - 52) \<le> 2 powi u" using uge by (simp only: pow2_le_iff)
      then show ?thesis by (rule mult_left_mono) simp
    qed
    finally have "x < 2 powi 53" using up by (simp only: mult_less_cancel_right_pos)
    with n1(1) have "(of_int n :: rat) < of_int (2 ^ 53) + 1" by simp
    then have nle: "n \<le> 2 ^ 53" by (rule int_le_of_rat_less)
    have "(of_int n :: rat) * 2 powi u \<le> of_int (2 ^ 53) * 2 powi u"
      using nle up by (simp only: mult_le_cancel_right_pos of_int_le_iff)
    also have "\<dots> \<le> of_int (2 ^ 53) * 2 powi (- 60)"
    proof -
      have "(2::rat) powi u \<le> 2 powi (- 60)" using ule by (simp only: pow2_le_iff)
      then show ?thesis by (rule mult_left_mono) simp
    qed
    also have "\<dots> < c" by (simp add: c_def)
    finally have v: "(of_int n :: rat) * 2 powi u < c" .
    have "u' \<le> 971" using ule by (simp add: u'_def)
    with v have "js_less (js_abs (round_double P D)) lit_0_01" by (simp add: L)
    moreover have "r \<le> amount_threshold"
    proof -
      have "(2::rat) powi (- 7) \<le> amount_threshold" by (simp add: amount_threshold_def)
      with small show ?thesis by linarith
    qed
    ultimately show ?thesis by (simp add: r_def)
  next
    case mid
    from br(1) mid(2) have "(2::rat) powi e < 2 powi (- 6)" by linarith
    then have "e < - 6" by (simp only: pow2_less_iff)
    moreover from br(2) mid(1) have "(2::rat) powi (- 7) < 2 powi (e + 1)" by linarith
    then have "- 7 < e + 1" by (simp only: pow2_less_iff)
    ultimately have e: "e = - 7" by linarith
    then have u: "u = - 59" by (simp add: u_def)
    have x: "x = r * 2 ^ 59" by (simp add: x_def u power_int_minus_divide)
    have "n \<noteq> 2 ^ 53 \<longrightarrow> u' = - 59" "n = 2 ^ 53 \<longrightarrow> u' = - 58"
      by (simp_all add: u'_def u)
    then have nov: "\<not> 971 < u'" by (cases "n = 2 ^ 53") simp_all
    have "(of_int n :: rat) * 2 powi u < c \<longleftrightarrow> (of_int n :: rat) < of_int 5764607523034235"
      by (simp add: c_def u)
    also have "\<dots> \<longleftrightarrow> n < 5764607523034235" by (simp only: of_int_less_iff)
    also have "\<dots> \<longleftrightarrow> x \<le> of_int 5764607523034235 - 1 / 2"
      using n2 by simp
    also have "\<dots> \<longleftrightarrow> r \<le> amount_threshold"
      by (simp add: x amount_threshold_def field_simps)
    finally show ?thesis using nov by (simp add: L r_def)
  next
    case large
    from br(2) large have "(2::rat) powi (- 6) < 2 powi (e + 1)" by linarith
    then have "- 6 < e + 1" by (simp only: pow2_less_iff)
    then have e: "- 6 \<le> e" by simp
    then have u: "u = e - 52" by (simp add: u_def)
    have "2 powi 52 * 2 powi u = (2::rat) powi e"
      by (simp only: u pow2_split_52 [symmetric])
    also have "\<dots> \<le> r" by (rule br(1))
    also have "\<dots> = x * 2 powi u" by (simp only: xr)
    finally have "2 powi 52 * 2 powi u \<le> x * (2::rat) powi u" .
    then have "2 powi 52 \<le> x" using up by (simp only: mult_le_cancel_right_pos)
    with n1(2) have "(of_int (2 ^ 52) :: rat) - 1 < of_int n" by simp
    then have nge: "2 ^ 52 \<le> n" by (rule int_ge_of_rat_less)
    have "c < 2 powi (- 6)" by (simp add: c_def)
    also have "\<dots> \<le> 2 powi e" using e by (simp only: pow2_le_iff)
    also have "\<dots> = of_int (2 ^ 52) * 2 powi u"
      using pow2_split_52 [of e] by (simp add: u)
    also have "\<dots> \<le> of_int n * 2 powi u"
      using nge up by (simp only: mult_le_cancel_right_pos of_int_le_iff)
    finally have "\<not> (of_int n :: rat) * 2 powi u < c" by simp
    then have "\<not> js_less (js_abs (round_double P D)) lit_0_01" by (simp add: L)
    moreover have "\<not> r \<le> amount_threshold"
    proof -
      have "amount_threshold < 2 powi (- 6)" by (simp add: amount_threshold_def)
      with large show ?thesis by linarith
    qed
    ultimately show ?thesis by (simp add: r_def)
  qed
qed

lemma amount_rule:
  "js_less (js_abs (js_sub x y)) lit_0_01 \<longleftrightarrow>
     (case (finite_value x, finite_value y) of
        (Some a, Some b) \<Rightarrow> \<bar>a - b\<bar> \<le> amount_threshold
      | _ \<Rightarrow> False)"
proof (cases x)
  case (Fin m1 e1)
  show ?thesis
  proof (cases y)
    case (Fin m2 e2)
    from js_sub_Fin [of m1 e1 m2 e2] obtain P D
      where "0 < D" "js_sub (Fin m1 e1) (Fin m2 e2) = round_double P D"
        "(of_int P / of_int D :: rat) = of_int m1 * 2 powi e1 - of_int m2 * 2 powi e2"
      by blast
    with round_double_threshold [of D P] show ?thesis
      by (simp add: \<open>x = Fin m1 e1\<close> Fin finite_value_def)
  qed (simp_all add: Fin js_sub_def js_abs_def js_less_def finite_value_def)
qed (cases y; simp add: js_sub_def js_abs_def js_less_def finite_value_def)+

lemma finite_value_neg: "finite_value (js_neg x) = map_option uminus (finite_value x)"
  by (cases x) (simp_all add: js_neg_def finite_value_def)

lemma parseFloat_minus:
  assumes "\<not> is_white_space c" "c \<noteq> CHR ''+''" "c \<noteq> CHR ''-''"
  shows "finite_value (parseFloat (CHR ''-'' # c # t)) =
           map_option uminus (finite_value (parseFloat (c # t)))"
proof -
  have "\<not> is_white_space CHR ''-''" by (simp add: is_white_space_def)
  then have "parseFloat (CHR ''-'' # c # t) = js_neg (str_unsigned_decimal (c # t))"
    by (simp add: parseFloat_def)
  moreover have "parseFloat (c # t) = str_unsigned_decimal (c # t)"
    using assms by (simp add: parseFloat_def)
  ultimately show ?thesis by (simp add: finite_value_neg)
qed

subsection \<open>White space, lower case and trimming\<close>

lemma char_eq_code: "c = d \<longleftrightarrow> (of_char c :: nat) = of_char d"
  by simp

lemma is_white_space_code:
  "is_white_space c \<longleftrightarrow> of_char c \<in> {9, 10, 11, 12, 13, 32, 160 :: nat}"
  unfolding is_white_space_def
  by (simp add: char_eq_code [of c "CHR 0x09"] char_eq_code [of c "CHR 0x0A"]
      char_eq_code [of c "CHR 0x0B"] char_eq_code [of c "CHR 0x0C"]
      char_eq_code [of c "CHR 0x0D"] char_eq_code [of c "CHR 0x20"]
      char_eq_code [of c "CHR 0xA0"])

lemma lower_char_code: "of_char (lower_char c) = lower_code (of_char c)"
proof -
  have "(of_char c :: nat) < 256" by simp
  then show ?thesis
    by (auto simp: lower_char_def lower_code_def Let_def)
qed

lemma toLowerCase_codes: "map of_char (toLowerCase s) = map lower_code (map of_char s)"
  by (simp add: toLowerCase_def lower_char_code comp_def)

lemma trim_rest:
  "dropWhile is_white_space s =
     trim s @ rev (takeWhile is_white_space (rev (dropWhile is_white_space s)))"
proof -
  let ?rest = "dropWhile is_white_space s"
  have "trim s @ rev (takeWhile is_white_space (rev ?rest)) =
        rev (takeWhile is_white_space (rev ?rest) @ dropWhile is_white_space (rev ?rest))"
    by (simp only: trim_def rev_append)
  also have "\<dots> = ?rest" by simp
  finally show ?thesis by (rule sym)
qed

lemma trim_decomposition:
  obtains p q where "s = p @ trim s @ q" "list_all is_white_space p" "list_all is_white_space q"
proof -
  define p where "p = takeWhile is_white_space s"
  define q where "q = rev (takeWhile is_white_space (rev (dropWhile is_white_space s)))"
  have b: "dropWhile is_white_space s = trim s @ q"
    unfolding q_def by (rule trim_rest)
  have "s = p @ dropWhile is_white_space s"
    unfolding p_def by simp
  then have 1: "s = p @ trim s @ q"
    unfolding b .
  have 2: "list_all is_white_space p"
    unfolding p_def by (auto simp: list_all_iff dest: set_takeWhileD)
  have 3: "list_all is_white_space q"
    unfolding q_def by (auto simp: list_all_iff dest: set_takeWhileD)
  show thesis by (rule that [OF 1 2 3])
qed

lemma trim_of_padded:
  assumes "list_all is_white_space p" "list_all is_white_space q" "stripped core"
  shows "trim (p @ core @ q) = core"
proof (cases core)
  case Nil
  have "\<forall>x \<in> set (p @ core @ q). is_white_space x"
    using assms(1,2) by (auto simp: list_all_iff Nil)
  then have "dropWhile is_white_space (p @ core @ q) = []"
    by (simp only: dropWhile_eq_Nil_conv)
  then have "trim (p @ core @ q) = rev (dropWhile is_white_space (rev []))"
    by (simp only: trim_def)
  then show ?thesis by (simp add: Nil)
next
  case (Cons c cs)
  with assms(3) have h: "\<not> is_white_space c" and l: "\<not> is_white_space (last core)"
    by (simp_all add: stripped_def)
  have "dropWhile is_white_space (p @ core @ q) = dropWhile is_white_space (core @ q)"
    using assms(1) by (simp add: list_all_iff dropWhile_append2)
  also have "\<dots> = core @ q" using h by (simp add: Cons)
  finally have d: "dropWhile is_white_space (p @ core @ q) = core @ q" .
  have "rev core \<noteq> []" by (simp add: Cons)
  then obtain z zs where r: "rev core = z # zs" by (cases "rev core") auto
  then have "rev (rev core) = rev (z # zs)" by simp
  then have "core = rev zs @ [z]" by simp
  then have "last core = z" by simp
  with l have z: "\<not> is_white_space z" by simp
  have "dropWhile is_white_space (rev (core @ q)) = dropWhile is_white_space (rev q @ rev core)"
    by simp
  also have "\<dots> = dropWhile is_white_space (rev core)"
  proof (rule dropWhile_append2)
    fix x assume "x \<in> set (rev q)"
    with assms(2) show "is_white_space x" by (simp add: list_all_iff)
  qed
  also have "\<dots> = rev core" using z by (simp add: r)
  finally show ?thesis by (simp add: trim_def d)
qed

lemma starts_with: "xs = (c # cs) @ ys \<Longrightarrow> xs \<noteq> [] \<and> hd xs = c"
  by simp

lemma trim_stripped: "stripped (trim s)"
proof (cases "trim s")
  case Nil
  then show ?thesis by (simp add: stripped_def)
next
  case (Cons c cs)
  let ?rest = "dropWhile is_white_space s"
  let ?d = "dropWhile is_white_space (rev ?rest)"
  have t: "trim s = rev ?d" by (simp add: trim_def)
  with Cons have ne: "?d \<noteq> []" by auto
  then have "\<not> is_white_space (hd ?d)" by (rule hd_dropWhile)
  moreover have "last (trim s) = hd ?d" using ne by (simp add: t last_rev)
  ultimately have l: "\<not> is_white_space (last (c # cs))" by (simp add: Cons)
  have "?rest = (c # cs) @ rev (takeWhile is_white_space (rev ?rest))"
    using trim_rest [of s] unfolding Cons .
  then have "?rest \<noteq> [] \<and> hd ?rest = c" by (rule starts_with)
  then have r: "?rest \<noteq> []" and h: "hd ?rest = c" by blast+
  from r have "\<not> is_white_space (hd ?rest)" by (rule hd_dropWhile)
  with h l show ?thesis by (simp add: stripped_def Cons)
qed

lemma status_rule:
  "trim s1 = trim s2 \<longleftrightarrow>
     (\<exists>core p1 q1 p2 q2. s1 = p1 @ core @ q1 \<and> s2 = p2 @ core @ q2 \<and>
        list_all is_white_space (p1 @ q1 @ p2 @ q2) \<and> stripped core)"
proof
  assume e: "trim s1 = trim s2"
  obtain p1 q1
    where 1: "s1 = p1 @ trim s1 @ q1" "list_all is_white_space p1" "list_all is_white_space q1"
    by (rule trim_decomposition)
  obtain p2 q2
    where 2: "s2 = p2 @ trim s2 @ q2" "list_all is_white_space p2" "list_all is_white_space q2"
    by (rule trim_decomposition)
  from 2(1) have 3: "s2 = p2 @ trim s1 @ q2" by (simp only: e [symmetric])
  have 4: "list_all is_white_space (p1 @ q1 @ p2 @ q2)"
    using 1(2,3) 2(2,3) by simp
  show "\<exists>core p1 q1 p2 q2. s1 = p1 @ core @ q1 \<and> s2 = p2 @ core @ q2 \<and>
        list_all is_white_space (p1 @ q1 @ p2 @ q2) \<and> stripped core"
  proof (intro exI conjI)
    show "s1 = p1 @ trim s1 @ q1" by (rule 1(1))
    show "s2 = p2 @ trim s1 @ q2" by (rule 3)
    show "list_all is_white_space (p1 @ q1 @ p2 @ q2)" by (rule 4)
    show "stripped (trim s1)" by (rule trim_stripped)
  qed
next
  assume "\<exists>core p1 q1 p2 q2. s1 = p1 @ core @ q1 \<and> s2 = p2 @ core @ q2 \<and>
        list_all is_white_space (p1 @ q1 @ p2 @ q2) \<and> stripped core"
  then obtain core p1 q1 p2 q2
    where "s1 = p1 @ core @ q1" "s2 = p2 @ core @ q2"
      "list_all is_white_space (p1 @ q1 @ p2 @ q2)" "stripped core"
    by blast
  then show "trim s1 = trim s2" by (simp add: trim_of_padded)
qed

subsection \<open>The two flags of a match record\<close>

lemma scenario_B_refs:
  "ref_of scenario_B_internal = ''T2''" "ref_of scenario_B_provider = ''T2''"
  by code_simp+

lemma scenario_B_flags:
  "\<not> amount_match (make_matchData ''T2'' scenario_B_internal scenario_B_provider)"
  "status_match (make_matchData ''T2'' scenario_B_internal scenario_B_provider)"
  "\<not> fully_matched (make_matchData ''T2'' scenario_B_internal scenario_B_provider)"
  by code_simp+

lemma scenario_B_run:
  "reconcileTransactions new_tool [scenario_B_internal] [scenario_B_provider] =
     (Inr \<lparr>matched = [],
           mismatched = [make_matchData ''T2'' scenario_B_internal scenario_B_provider],
           internal_only = [], provider_only = [],
           summary = Some \<lparr>total_internal = 1, total_provider = 1, matched_count = 0,
                           mismatched_count = 1, internal_only_count = 0,
                           provider_only_count = 0\<rparr>\<rparr>, new_tool)"
  by (simp add: reconcileTransactions_def scenario_B_refs scenario_B_flags)

text \<open>
  Values of \<open>parseFloat\<close> on a few amounts, the position of the threshold, and the two
  pairs of rows used below: one whose statuses differ in case and padding and whose
  negative amounts differ by just under 0.01, one whose amounts differ by
  0.009999999999999999 before rounding.
\<close>

lemma parse_examples:
  "parseFloat ''10.50'' = Fin 5910974510923776 (- 49)"
  "parseFloat '' -1.5e3abc'' = Fin (- 6597069766656000) (- 42)"
  "parseFloat ''.5'' = Fin 4503599627370496 (- 53)"
  "parseFloat ''0.01'' = Fin 5764607523034235 (- 59)"
  "parseFloat ''abc'' = NaN"
  "parseFloat ''-Infinity'' = NInf"
  by code_simp+

lemma threshold_bounds:
  "(1 / 100 - 1 / 10 ^ 18 :: rat) < 11529215046068469 / 2 ^ 60"
  "(11529215046068469 / 2 ^ 60 :: rat) < 1 / 100"
  by simp_all

lemma padded_facts:
  "ref_of padded_internal = ''T6''" "ref_of padded_provider = ''T6''"
  "amount_match (make_matchData ''T6'' padded_internal padded_provider)"
  "status_match (make_matchData ''T6'' padded_internal padded_provider)"
  "parseFloat (js_or_str (padded_internal ''amount'') ''0'') = Fin (- 5629499534213120) (- 49)"
  "parseFloat (js_or_str (padded_provider ''amount'') ''0'') = Fin (- 5635129033747333) (- 49)"
  "toLowerCase (js_or_str (padded_internal ''status'') []) = '' completed''"
  "toLowerCase (js_or_str (padded_provider ''status'') []) = ''completed ''"
  "toLowerCase '' COMPLETED'' = '' completed''"
  "parseFloat ''-10'' = Fin (- 5629499534213120) (- 49)"
  "parseFloat ''10'' = Fin 5629499534213120 (- 49)"
  by code_simp+

lemma padded_run:
  "reconcileTransactions new_tool [padded_internal] [padded_provider] =
     (Inr \<lparr>matched = [make_matchData ''T6'' padded_internal padded_provider],
           mismatched = [], internal_only = [], provider_only = [],
           summary = Some \<lparr>total_internal = 1, total_provider = 1, matched_count = 1,
                           mismatched_count = 0, internal_only_count = 0,
                           provider_only_count = 0\<rparr>\<rparr>, new_tool)"
  by (simp add: reconcileTransactions_def padded_facts(1-4))

lemma near_threshold_facts:
  "ref_of near_threshold_internal = ''T8''" "ref_of near_threshold_provider = ''T8''"
  "\<not> amount_match (make_matchData ''T8'' near_threshold_internal near_threshold_provider)"
  "status_match (make_matchData ''T8'' near_threshold_internal near_threshold_provider)"
  "amount_of near_threshold_internal = Fin 7205759403792794 (- 59)"
  "amount_of near_threshold_provider = Fin 5764607523034237 (- 61)"
  by code_simp+

text \<open>
  Claim C4, amended. For a key that both indexes hold, \<open>amount_match\<close> of its record is
  the comparison \<open>Math.abs(a - b) < 0.01\<close> carried out on binary64 numbers: the difference
  of the two parsed amounts is rounded to nearest, ties to even, and compared with the
  binary64 value of the literal 0.01. In terms of the exact values of the two parsed
  amounts this holds when both are finite and the absolute value of their exact difference
  is at most 11529215046068469 / 2^60, a bound that lies strictly between
  0.01 - 10^-18 and 0.01; it fails when either amount is \<open>NaN\<close> or infinite. So the
  flag is not the test "below 0.01" on the exact difference. \<open>status_match\<close> says whether
  the two \<open>status\<close> values, the empty string for an absent one, are equal once lower-cased
  and trimmed, that is, whether the lower-cased values are one and the same string with
  no white space at either end, padded with white space only. Lower-casing adds 32 to
  the codes 65 to 90, 192 to 214 and 216 to 222 and leaves every other code below 256;
  white space is the codes 9 to 13, 32 and 160; a leading minus sign negates the parsed
  value.
\<close>

theorem C4_amount_and_status_rules:
  assumes "reconcileTransactions this internalData providerData = (Inr res, this')"
    and "jsmap_get (index_rows internalData []) k = Some internalTxn"
    and "jsmap_get (index_rows providerData []) k = Some providerTxn"
  shows "(\<exists>m. filter (\<lambda>x. transaction_reference x = k) (matched res @ mismatched res) = [m] \<and>
            amount_match m =
              js_less (js_abs (js_sub (parseFloat (js_or_str (internalTxn ''amount'') ''0''))
                                      (parseFloat (js_or_str (providerTxn ''amount'') ''0''))))
                      (round_double 1 100) \<and>
            amount_match m =
              (case (finite_value (parseFloat (js_or_str (internalTxn ''amount'') ''0'')),
                     finite_value (parseFloat (js_or_str (providerTxn ''amount'') ''0''))) of
                 (Some a, Some b) \<Rightarrow> \<bar>a - b\<bar> \<le> 11529215046068469 / 2 ^ 60
               | _ \<Rightarrow> False) \<and>
            status_match m =
              (trim (toLowerCase (js_or_str (internalTxn ''status'') [])) =
               trim (toLowerCase (js_or_str (providerTxn ''status'') []))) \<and>
            status_match m =
              (\<exists>core p1 q1 p2 q2.
                 toLowerCase (js_or_str (internalTxn ''status'') []) = p1 @ core @ q1 \<and>
                 toLowerCase (js_or_str (providerTxn ''status'') []) = p2 @ core @ q2 \<and>
                 list_all is_white_space (p1 @ q1 @ p2 @ q2) \<and> stripped core)) \<and>
         (1 / 100 - 1 / 10 ^ 18 :: rat) < 11529215046068469 / 2 ^ 60 \<and>
         (11529215046068469 / 2 ^ 60 :: rat) < 1 / 100 \<and>
         map of_char (toLowerCase s) = map lower_code (map of_char s) \<and>
         is_white_space c = (of_char c \<in> {9, 10, 11, 12, 13, 32, 160 :: nat}) \<and>
         (\<not> is_white_space c \<and> c \<noteq> CHR ''+'' \<and> c \<noteq> CHR ''-'' \<longrightarrow>
            finite_value (parseFloat (CHR ''-'' # c # t)) =
              map_option uminus (finite_value (parseFloat (c # t)))) \<and>
         finite_value (parseFloat ''10.50'') = Some (21 / 2) \<and>
         finite_value (parseFloat '' -1.5e3abc'') = Some (- 1500) \<and>
         finite_value (parseFloat ''.5'') = Some (1 / 2) \<and>
         finite_value (parseFloat ''0.01'') = Some (5764607523034235 / 2 ^ 59) \<and>
         finite_value (parseFloat ''abc'') = None \<and>
         finite_value (parseFloat ''-Infinity'') = None"
proof -
  let ?a = "parseFloat (js_or_str (internalTxn ''amount'') ''0'')"
  let ?b = "parseFloat (js_or_str (providerTxn ''amount'') ''0'')"
  let ?s1 = "toLowerCase (js_or_str (internalTxn ''status'') [])"
  let ?s2 = "toLowerCase (js_or_str (providerTxn ''status'') [])"
  let ?m = "make_matchData k internalTxn providerTxn"
  have f: "filter (\<lambda>x. transaction_reference x = k) (matched res @ mismatched res) = [?m]"
    using assms by (rule match_record_for_key)
  have a1: "amount_match ?m = js_less (js_abs (js_sub ?a ?b)) (round_double 1 100)"
    by (simp add: make_matchData_def Let_def amount_of_def lit_0_01_def)
  have a2: "amount_match ?m =
              (case (finite_value ?a, finite_value ?b) of
                 (Some a, Some b) \<Rightarrow> \<bar>a - b\<bar> \<le> 11529215046068469 / 2 ^ 60
               | _ \<Rightarrow> False)"
    unfolding a1 lit_0_01_def [symmetric] amount_rule amount_threshold_def ..
  have s1: "status_match ?m = (trim ?s1 = trim ?s2)"
    by (simp add: make_matchData_def Let_def status_of_def)
  have s2: "status_match ?m =
              (\<exists>core p1 q1 p2 q2. ?s1 = p1 @ core @ q1 \<and> ?s2 = p2 @ core @ q2 \<and>
                 list_all is_white_space (p1 @ q1 @ p2 @ q2) \<and> stripped core)"
    unfolding s1 by (rule status_rule)
  have rec: "\<exists>m. filter (\<lambda>x. transaction_reference x = k) (matched res @ mismatched res) = [m] \<and>
            amount_match m = js_less (js_abs (js_sub ?a ?b)) (round_double 1 100) \<and>
            amount_match m =
              (case (finite_value ?a, finite_value ?b) of
                 (Some a, Some b) \<Rightarrow> \<bar>a - b\<bar> \<le> 11529215046068469 / 2 ^ 60
               | _ \<Rightarrow> False) \<and>
            status_match m = (trim ?s1 = trim ?s2) \<and>
            status_match m =
              (\<exists>core p1 q1 p2 q2. ?s1 = p1 @ core @ q1 \<and> ?s2 = p2 @ core @ q2 \<and>
                 list_all is_white_space (p1 @ q1 @ p2 @ q2) \<and> stripped core)"
    using f a1 a2 s1 s2 by (intro exI [of _ ?m] conjI)
  have neg: "\<not> is_white_space c \<and> c \<noteq> CHR ''+'' \<and> c \<noteq> CHR ''-'' \<longrightarrow>
            finite_value (parseFloat (CHR ''-'' # c # t)) =
              map_option uminus (finite_value (parseFloat (c # t)))"
    using parseFloat_minus [of c t] by blast
  have ex: "finite_value (parseFloat ''10.50'') = Some (21 / 2)"
    "finite_value (parseFloat '' -1.5e3abc'') = Some (- 1500)"
    "finite_value (parseFloat ''.5'') = Some (1 / 2)"
    "finite_value (parseFloat ''0.01'') = Some (5764607523034235 / 2 ^ 59)"
    "finite_value (parseFloat ''abc'') = None"
    "finite_value (parseFloat ''-Infinity'') = None"
    by (simp_all add: parse_examples finite_value_def)
  show ?thesis
    by (intro conjI) (rule rec threshold_bounds toLowerCase_codes is_white_space_code neg ex)+
qed

text \<open>
  The theorem at the rows \<open>-10.00\<close>, \<open>COMPLETED\<close> with a leading space, and \<open>-10.01\<close>,
  \<open>Completed\<close> with a trailing space: both flags are true and the record is in \<open>matched\<close>.
\<close>

theorem C4_amount_and_status_rules_witness:
  "reconcileTransactions new_tool [padded_internal] [padded_provider] =
     (Inr \<lparr>matched = [make_matchData ''T6'' padded_internal padded_provider],
           mismatched = [], internal_only = [], provider_only = [],
           summary = Some \<lparr>total_internal = 1, total_provider = 1, matched_count = 1,
                           mismatched_count = 0, internal_only_count = 0,
                           provider_only_count = 0\<rparr>\<rparr>, new_tool) \<and>
   jsmap_get (index_rows [padded_internal] []) ''T6'' = Some padded_internal \<and>
   jsmap_get (index_rows [padded_provider] []) ''T6'' = Some padded_provider \<and>
   finite_value (parseFloat (js_or_str (padded_internal ''amount'') ''0'')) = Some (- 10) \<and>
   finite_value (parseFloat (js_or_str (padded_provider ''amount'') ''0'')) =
     Some (- 5635129033747333 / 2 ^ 49) \<and>
   amount_match (make_matchData ''T6'' padded_internal padded_provider) =
     (\<bar>- 10 - (- 5635129033747333 / 2 ^ 49)\<bar> \<le> (11529215046068469 / 2 ^ 60 :: rat)) \<and>
   amount_match (make_matchData ''T6'' padded_internal padded_provider) \<and>
   toLowerCase (js_or_str (padded_internal ''status'') []) = '' '' @ ''completed'' @ [] \<and>
   toLowerCase (js_or_str (padded_provider ''status'') []) = [] @ ''completed'' @ '' '' \<and>
   list_all is_white_space ('' '' @ [] @ [] @ '' '') \<and> stripped ''completed'' \<and>
   status_match (make_matchData ''T6'' padded_internal padded_provider) \<and>
   map of_char (toLowerCase '' COMPLETED'') =
     [32, 99, 111, 109, 112, 108, 101, 116, 101, 100 :: nat] \<and>
   \<not> is_white_space CHR ''1'' \<and>
   finite_value (parseFloat ''-10'') = map_option uminus (finite_value (parseFloat ''10'')) \<and>
   finite_value (parseFloat ''-10'') = Some (- 10)"
proof -
  have h2: "jsmap_get (index_rows [padded_internal] []) ''T6'' = Some padded_internal"
    by (simp add: padded_facts(1))
  have h3: "jsmap_get (index_rows [padded_provider] []) ''T6'' = Some padded_provider"
    by (simp add: padded_facts(2))
  have e: "list_all is_white_space ('' '' @ [] @ [] @ '' '')" "stripped ''completed''"
    "\<not> is_white_space CHR ''1''"
    by (simp_all add: is_white_space_def stripped_def)
  have v: "finite_value (Fin (- 5629499534213120) (- 49)) = Some (- 10)"
    "finite_value (Fin 5629499534213120 (- 49)) = Some 10"
    "finite_value (Fin (- 5635129033747333) (- 49)) = Some (- 5635129033747333 / 2 ^ 49)"
    by (simp_all add: finite_value_def)
  have a: "(\<bar>- 10 - (- 5635129033747333 / 2 ^ 49)\<bar> \<le> (11529215046068469 / 2 ^ 60 :: rat))"
    by simp
  note T = C4_amount_and_status_rules [OF padded_run h2 h3,
      where s = "'' COMPLETED''" and c = "CHR ''1''" and t = "''0''"]
  from T have "finite_value (parseFloat ''-10'') =
                 map_option uminus (finite_value (parseFloat ''10''))"
    using e(3) by simp
  with padded_run h2 h3 e a show ?thesis
    by (simp add: padded_facts v)
qed

text \<open>
  The claim as worded fails for the amounts 0.0125 and 0.002500000000000001: the parsed
  values, and the decimal values as written, differ by less than 0.01, yet the rounded
  difference is the binary64 value of 0.01 itself, \<open>amount_match\<close> is false and the
  record is in \<open>mismatched\<close>.
\<close>

theorem C4_rounded_difference_counterexample:
  "finite_value (amount_of near_threshold_internal) = Some (7205759403792794 / 2 ^ 59) \<and>
   finite_value (amount_of near_threshold_provider) = Some (5764607523034237 / 2 ^ 61) \<and>
   \<bar>7205759403792794 / 2 ^ 59 - 5764607523034237 / 2 ^ 61\<bar> < (1 / 100 :: rat) \<and>
   \<bar>125 / 10 ^ 4 - 2500000000000001 / 10 ^ 18\<bar> < (1 / 100 :: rat) \<and>
   \<not> amount_match (make_matchData ''T8'' near_threshold_internal near_threshold_provider) \<and>
   reconcileTransactions new_tool [near_threshold_internal] [near_threshold_provider] =
     (Inr \<lparr>matched = [],
           mismatched = [make_matchData ''T8'' near_threshold_internal near_threshold_provider],
           internal_only = [], provider_only = [],
           summary = Some \<lparr>total_internal = 1, total_provider = 1, matched_count = 0,
                           mismatched_count = 1, internal_only_count = 0,
                           provider_only_count = 0\<rparr>\<rparr>, new_tool)"
  by (simp add: reconcileTransactions_def near_threshold_facts finite_value_def)

text \<open>
  Around the threshold: 0.01 against 0 is not a match, 0.009 against 0 is one, and so is
  10.01 against 10.00, whose binary64 difference is just under the binary64 value of 0.01.
\<close>

lemma amount_threshold_examples:
  "\<not> amount_match (make_matchData ''K'' [''amount'' \<mapsto> ''0.01''] [''amount'' \<mapsto> ''0''])"
  "amount_match (make_matchData ''K'' [''amount'' \<mapsto> ''0.009''] [''amount'' \<mapsto> ''0''])"
  "amount_match (make_matchData ''K'' [''amount'' \<mapsto> ''10.01''] [''amount'' \<mapsto> ''10.00''])"
  by code_simp+

section \<open>Duplicate keys\<close>

lemma first_occurrences_Nil: "first_occurrences [] = []"
  by (simp add: first_occurrences_def)

lemma first_occurrences_snoc:
  "first_occurrences (xs @ [x]) =
     (if x \<in> set xs then first_occurrences xs else first_occurrences xs @ [x])"
  by (simp add: first_occurrences_def)

lemma set_first_occurrences: "set (first_occurrences xs) = set xs"
  by (simp add: first_occurrences_def)

lemma distinct_first_occurrences: "distinct (first_occurrences xs)"
  by (simp add: first_occurrences_def)

lemma length_first_occurrences: "length (first_occurrences xs) = card (set xs)"
  by (simp add: first_occurrences_def length_remdups_card_conv)

lemma index_keys: "map fst (index_rows rows []) = first_occurrences (keys_of rows)"
  using keys_index_rows [of "[]" rows] by simp

lemma index_lookup:
  "jsmap_get (index_rows rows []) k =
     (if k \<noteq> [] \<and> filter (\<lambda>r. ref_of r = k) rows \<noteq> []
      then Some (last (filter (\<lambda>r. ref_of r = k) rows)) else None)"
  using jsmap_get_index_rows [of rows "[]" k] by simp

lemma index_has: "jsmap_has (index_rows rows []) k \<longleftrightarrow> k \<in> set (keys_of rows)"
proof -
  have "jsmap_has (index_rows rows []) k \<longleftrightarrow> k \<in> set (map fst (index_rows rows []))"
    by (simp add: jsmap_has_iff)
  then show ?thesis by (simp add: index_keys set_first_occurrences)
qed

lemma alist_rebuild:
  "distinct (map fst m) \<Longrightarrow> map (\<lambda>k. (k, the (jsmap_get m k))) (map fst m) = m"
proof (induction m)
  case Nil
  then show ?case by simp
next
  case (Cons a m)
  obtain k v where a: "a = (k, v)" by (cases a)
  from Cons.prems a have "k \<notin> fst ` set m" and d: "distinct (map fst m)" by auto
  then have "map (\<lambda>k'. (k', the (jsmap_get ((k, v) # m) k'))) (map fst m) =
             map (\<lambda>k'. (k', the (jsmap_get m k'))) (map fst m)"
    by (intro map_cong) auto
  with Cons.IH [OF d] show ?case by (simp add: a)
qed

lemma index_canonical:
  "index_rows rows [] =
     map (\<lambda>k. (k, last (filter (\<lambda>r. ref_of r = k) rows))) (first_occurrences (keys_of rows))"
proof -
  let ?idx = "index_rows rows []"
  have "map (\<lambda>k. (k, the (jsmap_get ?idx k))) (map fst ?idx) =
        map (\<lambda>k. (k, last (filter (\<lambda>r. ref_of r = k) rows))) (map fst ?idx)"
  proof (intro map_cong refl)
    fix k assume "k \<in> set (map fst ?idx)"
    then have "jsmap_get ?idx k \<noteq> None"
      using jsmap_has_get [of ?idx k] by (simp add: jsmap_has_iff)
    then show "(k, the (jsmap_get ?idx k)) = (k, last (filter (\<lambda>r. ref_of r = k) rows))"
      by (simp add: index_lookup split: if_splits)
  qed
  with alist_rebuild [OF distinct_index, of rows] show ?thesis
    by (simp add: index_keys)
qed

lemma jsmap_set_fresh: "k \<notin> fst ` set m \<Longrightarrow> jsmap_set m k v = m @ [(k, v)]"
  by (induction m) auto

lemma index_rows_distinct_keys:
  "distinct (map fst m @ keys_of rows) \<Longrightarrow>
     index_rows rows m = m @ map (\<lambda>r. (ref_of r, r)) (filter (\<lambda>r. ref_of r \<noteq> []) rows)"
proof (induction rows arbitrary: m)
  case Nil
  then show ?case by simp
next
  case (Cons row rows)
  show ?case
  proof (cases "ref_of row = []")
    case True
    with Cons show ?thesis by (simp add: keys_of_def)
  next
    case False
    with Cons.prems have fresh: "ref_of row \<notin> fst ` set m"
      and d: "distinct (map fst (m @ [(ref_of row, row)]) @ keys_of rows)"
      by (auto simp: keys_of_def)
    from Cons.IH [OF d] False fresh show ?thesis
      by (simp add: jsmap_set_fresh)
  qed
qed

lemma index_distinct_keys:
  "distinct (keys_of rows) \<Longrightarrow>
     map snd (index_rows rows []) = filter (\<lambda>r. ref_of r \<noteq> []) rows"
  using index_rows_distinct_keys [of "[]" rows] by (simp add: comp_def)



lemma scenario_D_facts:
  "ref_of scenario_D_first = ''T4''" "ref_of scenario_D_second = ''T4''"
  "ref_of scenario_D_provider = ''T4''" "ref_of scenario_C_internal = ''T3''"
  "amount_match (make_matchData ''T4'' scenario_D_second scenario_D_provider)"
  "status_match (make_matchData ''T4'' scenario_D_second scenario_D_provider)"
  by code_simp+





section \<open>Disjoint key sets\<close>

lemma paired_disjoint:
  "\<forall>k \<in> fst ` set im. \<not> jsmap_has pm k \<Longrightarrow> paired im pm = []"
  by (induction im) (auto simp: paired_Cons jsmap_has_get)

lemma unpaired_disjoint:
  "\<forall>k \<in> fst ` set im. \<not> jsmap_has pm k \<Longrightarrow> unpaired im pm = map snd im"
proof -
  assume "\<forall>k \<in> fst ` set im. \<not> jsmap_has pm k"
  then have "filter (\<lambda>(ref, txn). \<not> jsmap_has pm ref) im = im"
    by (intro filter_True) force
  then show ?thesis by (simp add: unpaired_def)
qed

lemma index_rows_of_keys:
  "map snd (index_rows rows []) =
     map (\<lambda>k. last (filter (\<lambda>r. ref_of r = k) rows)) (first_occurrences (keys_of rows))"
proof -
  have "map snd (index_rows rows []) =
        map snd (map (\<lambda>k. (k, last (filter (\<lambda>r. ref_of r = k) rows)))
                     (first_occurrences (keys_of rows)))"
    using index_canonical [of rows] by simp
  then show ?thesis by (simp add: comp_def)
qed

text \<open>
  Claim C6, amended. When no key occurs on both sides, \<open>matched\<close> and \<open>mismatched\<close>
  are empty, and \<open>internal_only\<close> and \<open>provider_only\<close> hold, for each key of their
  side in the order of first occurrence, the last input row with that key. When the keys
  of a side are pairwise distinct, that is the list of the side's input rows with a
  non-empty key, in input order.
\<close>

theorem C6_disjoint_key_sets:
  assumes "reconcileTransactions this internalData providerData = (Inr res, this')"
    and "set (keys_of internalData) \<inter> set (keys_of providerData) = {}"
  shows "matched res = [] \<and> mismatched res = [] \<and>
         internal_only res =
           map (\<lambda>k. last (filter (\<lambda>r. ref_of r = k) internalData))
               (first_occurrences (keys_of internalData)) \<and>
         provider_only res =
           map (\<lambda>k. last (filter (\<lambda>r. ref_of r = k) providerData))
               (first_occurrences (keys_of providerData)) \<and>
         (distinct (keys_of internalData) \<longrightarrow>
            internal_only res = filter (\<lambda>r. ref_of r \<noteq> []) internalData) \<and>
         (distinct (keys_of providerData) \<longrightarrow>
            provider_only res = filter (\<lambda>r. ref_of r \<noteq> []) providerData)"
proof -
  let ?im = "index_rows internalData []" and ?pm = "index_rows providerData []"
  note f = reconcile_fields [OF assms(1)]
  have i: "\<forall>k \<in> fst ` set ?im. \<not> jsmap_has ?pm k"
  proof
    fix k assume "k \<in> fst ` set ?im"
    then have "k \<in> set (keys_of internalData)"
      using index_has [of internalData k] by (simp add: jsmap_has_iff)
    with assms(2) show "\<not> jsmap_has ?pm k"
      by (auto simp: index_has)
  qed
  have p: "\<forall>k \<in> fst ` set ?pm. \<not> jsmap_has ?im k"
  proof
    fix k assume "k \<in> fst ` set ?pm"
    then have "k \<in> set (keys_of providerData)"
      using index_has [of providerData k] by (simp add: jsmap_has_iff)
    with assms(2) show "\<not> jsmap_has ?im k"
      by (auto simp: index_has)
  qed
  have m: "matched res = []" "mismatched res = []"
    by (simp_all add: f paired_disjoint [OF i])
  have io: "internal_only res = map snd ?im"
    by (simp add: f unpaired_disjoint [OF i])
  have po: "provider_only res = map snd ?pm"
    by (simp add: f unpaired_disjoint [OF p])
  have di: "distinct (keys_of internalData) \<longrightarrow>
              internal_only res = filter (\<lambda>r. ref_of r \<noteq> []) internalData"
    by (simp add: io index_distinct_keys)
  have dp: "distinct (keys_of providerData) \<longrightarrow>
              provider_only res = filter (\<lambda>r. ref_of r \<noteq> []) providerData"
    by (simp add: po index_distinct_keys)
  from m di dp show ?thesis
    by (simp only: io po index_rows_of_keys simp_thms)
qed

lemma padded_reference_row_ref: "ref_of padded_reference_row = ''T1''"
  by code_simp

lemma disjoint_run:
  "reconcileTransactions new_tool [scenario_D_first, scenario_C_internal, scenario_D_second]
       [padded_reference_row] =
     (Inr \<lparr>matched = [], mismatched = [],
           internal_only = [scenario_D_second, scenario_C_internal],
           provider_only = [padded_reference_row],
           summary = Some \<lparr>total_internal = 3, total_provider = 1, matched_count = 0,
                           mismatched_count = 0, internal_only_count = 2,
                           provider_only_count = 1\<rparr>\<rparr>, new_tool)"
  by (simp add: reconcileTransactions_def scenario_D_facts padded_reference_row_ref)

text \<open>
  An internal side with a repeated key and a provider side without one.
\<close>

theorem C6_disjoint_key_sets_witness:
  "reconcileTransactions new_tool [scenario_D_first, scenario_C_internal, scenario_D_second]
       [padded_reference_row] =
     (Inr \<lparr>matched = [], mismatched = [],
           internal_only = [scenario_D_second, scenario_C_internal],
           provider_only = [padded_reference_row],
           summary = Some \<lparr>total_internal = 3, total_provider = 1, matched_count = 0,
                           mismatched_count = 0, internal_only_count = 2,
                           provider_only_count = 1\<rparr>\<rparr>, new_tool) \<and>
   keys_of [scenario_D_first, scenario_C_internal, scenario_D_second] = [''T4'', ''T3'', ''T4''] \<and>
   keys_of [padded_reference_row] = [''T1''] \<and>
   set [''T4'', ''T3'', ''T4''] \<inter> set [''T1''] = {} \<and>
   [scenario_D_second, scenario_C_internal] =
     map (\<lambda>k. last (filter (\<lambda>r. ref_of r = k)
                       [scenario_D_first, scenario_C_internal, scenario_D_second]))
         (first_occurrences [''T4'', ''T3'', ''T4'']) \<and>
   distinct [''T1''] \<and>
   [padded_reference_row] = filter (\<lambda>r. ref_of r \<noteq> []) [padded_reference_row]"
proof -
  have k: "keys_of [scenario_D_first, scenario_C_internal, scenario_D_second] =
             [''T4'', ''T3'', ''T4'']"
    "keys_of [padded_reference_row] = [''T1'']"
    by (simp_all add: keys_of_def scenario_D_facts padded_reference_row_ref)
  have d: "set (keys_of [scenario_D_first, scenario_C_internal, scenario_D_second]) \<inter>
           set (keys_of [padded_reference_row]) = {}"
    by (simp add: k)
  from C6_disjoint_key_sets [OF disjoint_run d] disjoint_run k
  show ?thesis
    by (simp add: scenario_D_facts padded_reference_row_ref first_occurrences_def)
qed

lemma scenario_D_rows_differ: "scenario_D_first \<noteq> scenario_D_second"
proof
  assume "scenario_D_first = scenario_D_second"
  then have "scenario_D_first ''amount'' = scenario_D_second ''amount''" by simp
  then show False by (simp add: scenario_D_first_def scenario_D_second_def)
qed

text \<open>
  Claim C6 as stated fails when a side repeats a key: both internal rows of scenario D
  produce the key \<open>T4\<close>, the provider side is empty, and \<open>internal_only\<close> holds the
  second row only.
\<close>

theorem C6_duplicate_key_counterexample:
  "set (keys_of [scenario_D_first, scenario_D_second]) \<inter> set (keys_of []) = {} \<and>
   filter (\<lambda>r. ref_of r \<noteq> []) [scenario_D_first, scenario_D_second] =
     [scenario_D_first, scenario_D_second] \<and>
   reconcileTransactions new_tool [scenario_D_first, scenario_D_second] [] =
     (Inr \<lparr>matched = [], mismatched = [], internal_only = [scenario_D_second],
           provider_only = [],
           summary = Some \<lparr>total_internal = 2, total_provider = 0, matched_count = 0,
                           mismatched_count = 0, internal_only_count = 1,
                           provider_only_count = 0\<rparr>\<rparr>, new_tool) \<and>
   scenario_D_first \<notin> set [scenario_D_second]"
  by (simp add: reconcileTransactions_def keys_of_def scenario_D_facts scenario_D_rows_differ)

section \<open>Counts\<close>

lemma length_index: "length (index_rows rows []) = card (set (keys_of rows))"
proof -
  have "length (index_rows rows []) = length (map fst (index_rows rows []))" by simp
  also have "\<dots> = card (set (keys_of rows))"
    by (simp only: index_keys length_first_occurrences)
  finally show ?thesis .
qed

lemma card_keys_le: "card (set (keys_of rows)) \<le> length rows"
proof -
  have "card (set (keys_of rows)) \<le> length (keys_of rows)" by (rule card_length)
  also have "\<dots> \<le> length rows" by (simp add: keys_of_def le_trans [OF length_filter_le])
  finally show ?thesis .
qed

lemma length_unpaired:
  "length (unpaired m other) = length (filter (\<lambda>k. \<not> jsmap_has other k) (map fst m))"
  by (induction m) (auto simp: unpaired_def)

lemma length_paired:
  "length (paired im pm) = length (filter (jsmap_has pm) (map fst im))"
  using paired_keys [of im pm] by (metis length_map)

lemma length_common:
  assumes "distinct xs" "distinct ys"
  shows "length (filter (\<lambda>k. k \<in> set ys) xs) = length (filter (\<lambda>k. k \<in> set xs) ys)"
proof -
  have "length (filter (\<lambda>k. k \<in> set ys) xs) = card ({k. k \<in> set ys} \<inter> set xs)"
    using assms(1) by (rule distinct_length_filter)
  moreover have "length (filter (\<lambda>k. k \<in> set xs) ys) = card ({k. k \<in> set xs} \<inter> set ys)"
    using assms(2) by (rule distinct_length_filter)
  moreover have "{k. k \<in> set ys} \<inter> set xs = {k. k \<in> set xs} \<inter> set ys" by auto
  ultimately show ?thesis by simp
qed

lemma category_lengths:
  assumes "reconcileTransactions this internalData providerData = (Inr res, this')"
  shows "length (matched res) + length (mismatched res) + length (internal_only res) =
           length (index_rows internalData [])"
    and "length (matched res) + length (mismatched res) + length (provider_only res) =
           length (index_rows providerData [])"
proof -
  let ?im = "index_rows internalData []" and ?pm = "index_rows providerData []"
  note f = reconcile_fields [OF assms]
  have s: "length (matched res) + length (mismatched res) = length (paired ?im ?pm)"
    by (simp add: f sum_length_filter_compl)
  with length_paired_unpaired [of ?im ?pm]
  show "length (matched res) + length (mismatched res) + length (internal_only res) =
          length ?im"
    by (simp add: f)
  have "length (paired ?im ?pm) = length (filter (\<lambda>k. k \<in> set (map fst ?pm)) (map fst ?im))"
    by (simp add: length_paired jsmap_has_iff [abs_def])
  also have "\<dots> = length (filter (\<lambda>k. k \<in> set (map fst ?im)) (map fst ?pm))"
    using distinct_index distinct_index by (rule length_common)
  finally have "length (paired ?im ?pm) = length (filter (jsmap_has ?im) (map fst ?pm))"
    by (simp add: jsmap_has_iff [abs_def])
  moreover have "length (filter (jsmap_has ?im) (map fst ?pm)) +
                 length (filter (\<lambda>k. \<not> jsmap_has ?im k) (map fst ?pm)) = length ?pm"
    using sum_length_filter_compl [of "jsmap_has ?im" "map fst ?pm"] by simp
  ultimately
  show "length (matched res) + length (mismatched res) + length (provider_only res) =
          length ?pm"
    using s by (simp add: f length_unpaired)
qed

lemma trim_Nil: "trim [] = []"
  by (simp add: trim_def)

lemma blank_ref:
  assumes "blank (row ''transaction_reference'')" "blank (row ''reference'')"
    "blank (row ''id'')"
  shows "ref_of row = []"
proof -
  have b: "truthy v \<Longrightarrow> blank v \<Longrightarrow> trim (the v) = []" for v
    by (cases v) (simp_all add: blank_def truthy_def)
  show ?thesis
    using assms by (simp add: ref_of_def js_or_str_js_or b trim_Nil)
qed

text \<open>
  Claim C7. The lengths of \<open>matched\<close>, \<open>mismatched\<close> and \<open>internal_only\<close> add up
  to the size of the internal index, which is the number of distinct non-empty keys of
  the internal rows and at most \<open>total_internal\<close>, the number of internal rows; the
  same holds on the provider side with \<open>provider_only\<close>. A row whose three key fields
  are each absent or blank has no key and appears in no category, while the totals
  count every input row.
\<close>

theorem C7_category_counts:
  assumes "reconcileTransactions this internalData providerData = (Inr res, this')"
  shows "length (matched res) + length (mismatched res) + length (internal_only res) =
           length (index_rows internalData []) \<and>
         length (index_rows internalData []) = card (set (keys_of internalData)) \<and>
         length (matched res) + length (mismatched res) + length (provider_only res) =
           length (index_rows providerData []) \<and>
         length (index_rows providerData []) = card (set (keys_of providerData)) \<and>
         (\<exists>s. summary res = Some s \<and>
              total_internal s = length internalData \<and>
              total_provider s = length providerData \<and>
              card (set (keys_of internalData)) \<le> total_internal s \<and>
              card (set (keys_of providerData)) \<le> total_provider s) \<and>
         (blank (row ''transaction_reference'') \<and> blank (row ''reference'') \<and>
          blank (row ''id'') \<longrightarrow>
            ref_of row = [] \<and>
            row \<notin> set (internal_only res) \<and> row \<notin> set (provider_only res) \<and>
            (\<forall>m \<in> set (matched res @ mismatched res). internal m \<noteq> row \<and> provider m \<noteq> row))"
proof -
  have x: "row \<notin> set (internal_only res) \<and> row \<notin> set (provider_only res) \<and>
           (\<forall>m \<in> set (matched res @ mismatched res). internal m \<noteq> row \<and> provider m \<noteq> row)"
    if "ref_of row = []"
    using that output_rows_keyed [OF assms] by blast
  have s: "\<exists>s. summary res = Some s \<and>
              total_internal s = length internalData \<and>
              total_provider s = length providerData \<and>
              card (set (keys_of internalData)) \<le> total_internal s \<and>
              card (set (keys_of providerData)) \<le> total_provider s"
    by (simp add: reconcile_fields(5) [OF assms] card_keys_le)
  have b: "blank (row ''transaction_reference'') \<and> blank (row ''reference'') \<and>
           blank (row ''id'') \<longrightarrow>
             ref_of row = [] \<and>
             row \<notin> set (internal_only res) \<and> row \<notin> set (provider_only res) \<and>
             (\<forall>m \<in> set (matched res @ mismatched res). internal m \<noteq> row \<and> provider m \<noteq> row)"
  proof
    assume "blank (row ''transaction_reference'') \<and> blank (row ''reference'') \<and>
            blank (row ''id'')"
    then have r: "ref_of row = []" using blank_ref [of row] by simp
    from r x [OF r]
    show "ref_of row = [] \<and>
          row \<notin> set (internal_only res) \<and> row \<notin> set (provider_only res) \<and>
          (\<forall>m \<in> set (matched res @ mismatched res). internal m \<noteq> row \<and> provider m \<noteq> row)"
      by (rule conjI)
  qed
  show ?thesis
    by (intro conjI) (rule category_lengths [OF assms] length_index s b)+
qed

lemma blank_row_facts:
  "ref_of blank_row = []"
  "blank (blank_row ''transaction_reference'')"
  "blank (blank_row ''reference'')"
  "blank (blank_row ''id'')"
  by code_simp+

lemma blank_run:
  "reconcileTransactions new_tool [scenario_A_internal, blank_row, scenario_C_internal]
       [scenario_A_provider, blank_row] =
     (Inr \<lparr>matched = [make_matchData ''T1'' scenario_A_internal scenario_A_provider],
           mismatched = [], internal_only = [scenario_C_internal], provider_only = [],
           summary = Some \<lparr>total_internal = 3, total_provider = 2, matched_count = 1,
                           mismatched_count = 0, internal_only_count = 1,
                           provider_only_count = 0\<rparr>\<rparr>, new_tool)"
  by (simp add: reconcileTransactions_def scenario_A_refs scenario_A_flags scenario_D_facts
        blank_row_facts)

text \<open>
  A row whose \<open>id\<close> is two spaces, on both sides: three internal rows and two keys,
  two provider rows and one key.
\<close>

theorem C7_category_counts_witness:
  "reconcileTransactions new_tool [scenario_A_internal, blank_row, scenario_C_internal]
       [scenario_A_provider, blank_row] =
     (Inr \<lparr>matched = [make_matchData ''T1'' scenario_A_internal scenario_A_provider],
           mismatched = [], internal_only = [scenario_C_internal], provider_only = [],
           summary = Some \<lparr>total_internal = 3, total_provider = 2, matched_count = 1,
                           mismatched_count = 0, internal_only_count = 1,
                           provider_only_count = 0\<rparr>\<rparr>, new_tool) \<and>
   blank (blank_row ''transaction_reference'') \<and> blank (blank_row ''reference'') \<and>
   blank (blank_row ''id'') \<and>
   keys_of [scenario_A_internal, blank_row, scenario_C_internal] = [''T1'', ''T3''] \<and>
   keys_of [scenario_A_provider, blank_row] = [''T1''] \<and>
   length [make_matchData ''T1'' scenario_A_internal scenario_A_provider] + length ([] :: matchData list) +
     length [scenario_C_internal] = card (set [''T1'', ''T3'']) \<and>
   card (set [''T1'', ''T3'']) \<le> (3 :: nat) \<and>
   length [make_matchData ''T1'' scenario_A_internal scenario_A_provider] + length ([] :: matchData list) +
     length ([] :: row list) = card (set [''T1'']) \<and>
   card (set [''T1'']) \<le> (2 :: nat) \<and>
   ref_of blank_row = [] \<and> blank_row \<notin> set [scenario_C_internal] \<and>
   internal (make_matchData ''T1'' scenario_A_internal scenario_A_provider) \<noteq> blank_row \<and>
   provider (make_matchData ''T1'' scenario_A_internal scenario_A_provider) \<noteq> blank_row"
proof -
  have k: "keys_of [scenario_A_internal, blank_row, scenario_C_internal] = [''T1'', ''T3'']"
    "keys_of [scenario_A_provider, blank_row] = [''T1'']"
    by (simp_all add: keys_of_def scenario_A_refs scenario_D_facts blank_row_facts)
  from C7_category_counts [OF blank_run, of blank_row] blank_run k
  show ?thesis
    by (simp add: scenario_A_refs scenario_D_facts blank_row_facts)
qed

section \<open>Totality, empty inputs, determinism\<close>

lemma paired_no_provider: "paired im [] = []"
  by (induction im) (auto simp: paired_Cons)

lemma unpaired_Nil: "unpaired [] other = []"
  by (simp add: unpaired_def)

lemma unpaired_no_other: "unpaired m [] = map snd m"
  by (simp add: unpaired_def)

text \<open>
  Claim C8. \<^verbatim>\<open>reconcileTransactions\<close> returns a result for every two lists of rows: the
  TypeError of the model is never raised. With an empty side, the categories fed from
  that side are empty and its counts are zero; the other side's rows all land in its
  only-category.
\<close>

theorem C8_total_and_empty_inputs:
  "(\<exists>res. reconcileTransactions this internalData providerData = (Inr res, this)) \<and>
   reconcileTransactions this [] [] =
     (Inr \<lparr>matched = [], mismatched = [], internal_only = [], provider_only = [],
           summary = Some \<lparr>total_internal = 0, total_provider = 0, matched_count = 0,
                           mismatched_count = 0, internal_only_count = 0,
                           provider_only_count = 0\<rparr>\<rparr>, this) \<and>
   reconcileTransactions this [] providerData =
     (Inr \<lparr>matched = [], mismatched = [], internal_only = [],
           provider_only = map snd (index_rows providerData []),
           summary = Some \<lparr>total_internal = 0, total_provider = length providerData,
                           matched_count = 0, mismatched_count = 0, internal_only_count = 0,
                           provider_only_count = length (index_rows providerData [])\<rparr>\<rparr>, this) \<and>
   reconcileTransactions this internalData [] =
     (Inr \<lparr>matched = [], mismatched = [],
           internal_only = map snd (index_rows internalData []), provider_only = [],
           summary = Some \<lparr>total_internal = length internalData, total_provider = 0,
                           matched_count = 0, mismatched_count = 0,
                           internal_only_count = length (index_rows internalData []),
                           provider_only_count = 0\<rparr>\<rparr>, this)"
  by (simp add: reconcileTransactions_eq Let_def paired_no_provider unpaired_Nil
        unpaired_no_other)

text \<open>
  Claim C9. The result does not depend on the object the method is called on, and the
  call leaves that object as it is: a second call with the same two lists returns the
  same result.
\<close>

theorem C9_deterministic_and_stateless:
  "fst (reconcileTransactions this internalData providerData) =
     fst (reconcileTransactions this2 internalData providerData) \<and>
   snd (reconcileTransactions this internalData providerData) = this \<and>
   fst (reconcileTransactions (snd (reconcileTransactions this internalData providerData))
          internalData providerData) =
     fst (reconcileTransactions this internalData providerData)"
  by (simp add: reconcileTransactions_eq Let_def)

section \<open>One category per key\<close>

lemma count_distinct:
  "distinct xs \<Longrightarrow> length (filter (\<lambda>x. x = k) xs) = (if k \<in> set xs then 1 else 0)"
  by (induction xs) auto

lemma count_filter_split:
  "length (filter P (map f (filter Q xs))) + length (filter P (map f (filter (\<lambda>x. \<not> Q x) xs))) =
     length (filter P (map f xs))"
  by (induction xs) auto

lemma unpaired_keys:
  "\<forall>(k, r) \<in> set m. ref_of r = k \<Longrightarrow>
     map ref_of (unpaired m other) = filter (\<lambda>k. \<not> jsmap_has other k) (map fst m)"
  by (induction m) (auto simp: unpaired_def)

lemma index_entries_keyed: "\<forall>(k, r) \<in> set (index_rows rows []). ref_of r = k"
  using index_entry by blast

lemma count_both:
  assumes "reconcileTransactions this internalData providerData = (Inr res, this')"
  shows "length (filter (\<lambda>x. x = k)
                   (map transaction_reference (matched res) @
                    map transaction_reference (mismatched res))) =
           (if jsmap_has (index_rows internalData []) k \<and> jsmap_has (index_rows providerData []) k
            then 1 else 0)"
proof -
  let ?im = "index_rows internalData []" and ?pm = "index_rows providerData []"
  let ?c = "\<lambda>xs. length (filter (\<lambda>x. x = k) xs)"
  note f = reconcile_fields [OF assms]
  have "?c (map transaction_reference (matched res) @ map transaction_reference (mismatched res)) =
        ?c (map transaction_reference (matched res)) +
        ?c (map transaction_reference (mismatched res))"
    by simp
  also have "\<dots> = ?c (map transaction_reference (paired ?im ?pm))"
    unfolding f by (rule count_filter_split)
  also have "\<dots> = ?c (filter (jsmap_has ?pm) (map fst ?im))"
    by (simp only: paired_keys)
  also have "\<dots> = (if k \<in> set (filter (jsmap_has ?pm) (map fst ?im)) then 1 else 0)"
    using distinct_index by (intro count_distinct distinct_filter)
  also have "\<dots> = (if jsmap_has ?im k \<and> jsmap_has ?pm k then 1 else 0)"
    by (auto simp: jsmap_has_iff)
  finally show ?thesis .
qed

lemma count_unpaired:
  "length (filter (\<lambda>x. x = k) (map ref_of (unpaired (index_rows rows []) other))) =
     (if jsmap_has (index_rows rows []) k \<and> \<not> jsmap_has other k then 1 else 0)"
proof -
  let ?m = "index_rows rows []"
  let ?c = "\<lambda>xs. length (filter (\<lambda>x. x = k) xs)"
  have "?c (map ref_of (unpaired ?m other)) =
        ?c (filter (\<lambda>k. \<not> jsmap_has other k) (map fst ?m))"
    by (simp only: unpaired_keys [OF index_entries_keyed])
  also have "\<dots> = (if k \<in> set (filter (\<lambda>k. \<not> jsmap_has other k) (map fst ?m)) then 1 else 0)"
    using distinct_index by (intro count_distinct distinct_filter)
  also have "\<dots> = (if jsmap_has ?m k \<and> \<not> jsmap_has other k then 1 else 0)"
    by (auto simp: jsmap_has_iff)
  finally show ?thesis .
qed

lemma category_keys_count:
  assumes "reconcileTransactions this internalData providerData = (Inr res, this')"
  shows "length (filter (\<lambda>x. x = k) (category_keys res)) =
           (if jsmap_has (index_rows internalData []) k \<or> jsmap_has (index_rows providerData []) k
            then 1 else 0)"
proof -
  let ?im = "index_rows internalData []" and ?pm = "index_rows providerData []"
  let ?c = "\<lambda>xs. length (filter (\<lambda>x. x = k) xs)"
  note f = reconcile_fields [OF assms]
  have "?c (category_keys res) =
          ?c (map transaction_reference (matched res) @
              map transaction_reference (mismatched res)) +
          ?c (map ref_of (unpaired ?im ?pm)) + ?c (map ref_of (unpaired ?pm ?im))"
    by (simp add: category_keys_def f(3,4))
  also have "\<dots> = (if jsmap_has ?im k \<or> jsmap_has ?pm k then 1 else 0)"
    unfolding count_both [OF assms] count_unpaired by simp
  finally show ?thesis .
qed

lemma match_rows_present:
  assumes "reconcileTransactions this internalData providerData = (Inr res, this')"
    and "m \<in> set (matched res @ mismatched res)"
  shows "jsmap_get (index_rows internalData []) (transaction_reference m) = Some (internal m) \<and>
         jsmap_get (index_rows providerData []) (transaction_reference m) = Some (provider m) \<and>
         internal m \<in> set internalData \<and> provider m \<in> set providerData"
proof -
  let ?im = "index_rows internalData []" and ?pm = "index_rows providerData []"
  from assms have "m \<in> set (paired ?im ?pm)"
    by (auto simp: reconcile_fields [OF assms(1)])
  from paired_entry [OF this] obtain r pr
    where e: "(transaction_reference m, r) \<in> set ?im"
      "jsmap_get ?pm (transaction_reference m) = Some pr"
      "m = make_matchData (transaction_reference m) r pr"
    by blast
  from e(3) have i: "internal m = r" "provider m = pr"
    by (metis make_matchData_sel(2), metis make_matchData_sel(3))
  have "jsmap_get ?im (transaction_reference m) = Some r"
    using distinct_index e(1) by (rule entry_jsmap_get)
  moreover have "r \<in> set internalData"
    using index_entry [OF e(1)] by simp
  moreover have "pr \<in> set providerData"
    using index_entry [OF jsmap_get_entry [OF e(2)]] by simp
  ultimately show ?thesis using e(2) by (simp add: i)
qed

text \<open>
  Claim C10. Every record of \<open>matched\<close> or \<open>mismatched\<close> carries the row that the
  internal index holds for its key and the row that the provider index holds for it,
  both of them input rows. Every key of an index occurs exactly once among the keys of
  the four categories: among the records when both indexes hold it, in
  \<open>internal_only\<close> when only the internal index does, in \<open>provider_only\<close> when only
  the provider index does.
\<close>

theorem C10_one_category_per_key:
  assumes "reconcileTransactions this internalData providerData = (Inr res, this')"
  shows "(\<forall>m \<in> set (matched res @ mismatched res).
            jsmap_get (index_rows internalData []) (transaction_reference m) = Some (internal m) \<and>
            jsmap_get (index_rows providerData []) (transaction_reference m) = Some (provider m) \<and>
            internal m \<in> set internalData \<and> provider m \<in> set providerData) \<and>
         length (filter (\<lambda>x. x = k) (category_keys res)) =
           (if jsmap_has (index_rows internalData []) k \<or> jsmap_has (index_rows providerData []) k
            then 1 else 0) \<and>
         length (filter (\<lambda>x. x = k)
                   (map transaction_reference (matched res) @
                    map transaction_reference (mismatched res))) =
           (if jsmap_has (index_rows internalData []) k \<and> jsmap_has (index_rows providerData []) k
            then 1 else 0) \<and>
         length (filter (\<lambda>x. x = k) (map ref_of (internal_only res))) =
           (if jsmap_has (index_rows internalData []) k \<and>
               \<not> jsmap_has (index_rows providerData []) k
            then 1 else 0) \<and>
         length (filter (\<lambda>x. x = k) (map ref_of (provider_only res))) =
           (if jsmap_has (index_rows providerData []) k \<and>
               \<not> jsmap_has (index_rows internalData []) k
            then 1 else 0)"
proof (intro conjI ballI)
  fix m assume m: "m \<in> set (matched res @ mismatched res)"
  from match_rows_present [OF assms m]
  show "jsmap_get (index_rows internalData []) (transaction_reference m) = Some (internal m)"
    and "jsmap_get (index_rows providerData []) (transaction_reference m) = Some (provider m)"
    and "internal m \<in> set internalData" and "provider m \<in> set providerData"
    by simp_all
next
  show "length (filter (\<lambda>x. x = k) (category_keys res)) =
          (if jsmap_has (index_rows internalData []) k \<or> jsmap_has (index_rows providerData []) k
           then 1 else 0)"
    by (rule category_keys_count [OF assms])
  show "length (filter (\<lambda>x. x = k)
                  (map transaction_reference (matched res) @
                   map transaction_reference (mismatched res))) =
          (if jsmap_has (index_rows internalData []) k \<and> jsmap_has (index_rows providerData []) k
           then 1 else 0)"
    by (rule count_both [OF assms])
  show "length (filter (\<lambda>x. x = k) (map ref_of (internal_only res))) =
          (if jsmap_has (index_rows internalData []) k \<and>
              \<not> jsmap_has (index_rows providerData []) k
           then 1 else 0)"
    unfolding reconcile_fields(3) [OF assms] by (rule count_unpaired)
  show "length (filter (\<lambda>x. x = k) (map ref_of (provider_only res))) =
          (if jsmap_has (index_rows providerData []) k \<and>
              \<not> jsmap_has (index_rows internalData []) k
           then 1 else 0)"
    unfolding reconcile_fields(4) [OF assms] by (rule count_unpaired)
qed

lemma mixed_run:
  "reconcileTransactions new_tool [scenario_B_internal, scenario_C_internal]
       [provider_extra, scenario_B_provider] =
     (Inr \<lparr>matched = [],
           mismatched = [make_matchData ''T2'' scenario_B_internal scenario_B_provider],
           internal_only = [scenario_C_internal], provider_only = [provider_extra],
           summary = Some \<lparr>total_internal = 2, total_provider = 2, matched_count = 0,
                           mismatched_count = 1, internal_only_count = 1,
                           provider_only_count = 1\<rparr>\<rparr>, new_tool)"
  by (simp add: reconcileTransactions_def scenario_B_refs scenario_B_flags scenario_D_facts
        provider_extra_ref)

text \<open>
  Key \<open>T2\<close> on both sides, \<open>T3\<close> internal only, \<open>P9\<close> provider only.
\<close>

theorem C10_one_category_per_key_witness:
  "reconcileTransactions new_tool [scenario_B_internal, scenario_C_internal]
       [provider_extra, scenario_B_provider] =
     (Inr \<lparr>matched = [],
           mismatched = [make_matchData ''T2'' scenario_B_internal scenario_B_provider],
           internal_only = [scenario_C_internal], provider_only = [provider_extra],
           summary = Some \<lparr>total_internal = 2, total_provider = 2, matched_count = 0,
                           mismatched_count = 1, internal_only_count = 1,
                           provider_only_count = 1\<rparr>\<rparr>, new_tool) \<and>
   make_matchData ''T2'' scenario_B_internal scenario_B_provider \<in>
     set ([] @ [make_matchData ''T2'' scenario_B_internal scenario_B_provider]) \<and>
   jsmap_get (index_rows [scenario_B_internal, scenario_C_internal] []) ''T2'' =
     Some scenario_B_internal \<and>
   jsmap_get (index_rows [provider_extra, scenario_B_provider] []) ''T2'' =
     Some scenario_B_provider \<and>
   scenario_B_internal \<in> set [scenario_B_internal, scenario_C_internal] \<and>
   scenario_B_provider \<in> set [provider_extra, scenario_B_provider] \<and>
   jsmap_has (index_rows [scenario_B_internal, scenario_C_internal] []) ''T2'' \<and>
   jsmap_has (index_rows [provider_extra, scenario_B_provider] []) ''T2'' \<and>
   length (filter (\<lambda>x. x = ''T2'') [''T2'', ''T3'', ''P9'']) = 1"
proof -
  have m: "make_matchData ''T2'' scenario_B_internal scenario_B_provider \<in>
             set ([] @ [make_matchData ''T2'' scenario_B_internal scenario_B_provider])"
    by simp
  from C10_one_category_per_key [OF mixed_run, of "''T2''"] mixed_run m
  show ?thesis
    by (simp add: scenario_B_refs scenario_D_facts provider_extra_ref category_keys_def)
qed

end
